theory Spec2Isabelle
  imports Complex_Main "HOL-Library.Word"
begin

section \<open>DictationButton: the dictation component\<close>

text \<open>
  A shallow embedding of \<^verbatim>\<open>src/zip/components/DictationButton.tsx\<close>. The component
  keeps one piece of React state (\<^verbatim>\<open>isDictating\<close>) and five refs; it talks to the host
  (the browser) through the Web Speech API, the Web Audio API, \<^verbatim>\<open>getUserMedia\<close>,
  \<^verbatim>\<open>setTimeout\<close> and \<^verbatim>\<open>requestAnimationFrame\<close>. The component's functions are
  translated one by one; the part of the host they call is a small explicit model
  (pending timeouts, pending animation frames, the objects the refs point to).
\<close>

subsection \<open>JavaScript strings and \<^verbatim>\<open>String.prototype.trim\<close>\<close>

text \<open>
  A JavaScript string is a sequence of UTF-16 code units. \<^verbatim>\<open>trim\<close> removes the
  leading and trailing code units that are WhiteSpace or LineTerminator in ECMAScript;
  all of them lie in the basic plane, so each is one code unit.
\<close>

type_synonym jschar = "16 word"
type_synonym jsstring = "jschar list"

definition utf16 :: "string \<Rightarrow> jsstring" where
  "utf16 s = map (\<lambda>c. of_nat (of_char c)) s"

definition isWhiteSpace :: "jschar \<Rightarrow> bool" where
  "isWhiteSpace c \<longleftrightarrow>
     c = 0x0009 \<or> c = 0x000A \<or> c = 0x000B \<or> c = 0x000C \<or> c = 0x000D \<or>
     c = 0x0020 \<or> c = 0x00A0 \<or> c = 0x1680 \<or> (0x2000 \<le> c \<and> c \<le> 0x200A) \<or>
     c = 0x2028 \<or> c = 0x2029 \<or> c = 0x202F \<or> c = 0x205F \<or> c = 0x3000 \<or>
     c = 0xFEFF"

definition trim :: "jsstring \<Rightarrow> jsstring" where
  "trim s = rev (dropWhile isWhiteSpace (rev (dropWhile isWhiteSpace s)))"

text \<open>What "whitespace-trimmed" means for a string: no whitespace at either end.\<close>

definition trimmed :: "jsstring \<Rightarrow> bool" where
  "trimmed s \<longleftrightarrow> (case s of [] \<Rightarrow> True | c # _ \<Rightarrow> \<not> isWhiteSpace c \<and> \<not> isWhiteSpace (last s))"

subsection \<open>Errors\<close>

text \<open>The exceptions of the host that the component can meet.\<close>

datatype error = TypeError | InvalidStateError | NotAllowedError | NotSupportedError

subsection \<open>The recognition result handler\<close>

text \<open>
  A \<^verbatim>\<open>SpeechRecognitionResult\<close> has the flag \<^verbatim>\<open>isFinal\<close> and is indexed by number; the
  entry at an index is an alternative with its \<^verbatim>\<open>transcript\<close>. The alternatives are the
  list of their transcripts. \<^verbatim>\<open>event.results[i][0]\<close> of a result with no alternative is
  \<^verbatim>\<open>undefined\<close>, and reading \<^verbatim>\<open>.transcript\<close> of it throws a TypeError.
\<close>

record SpeechRecognitionResult =
  isFinal :: bool
  alternatives :: "jsstring list"

record SpeechRecognitionEvent =
  resultIndex :: nat
  results :: "SpeechRecognitionResult list"

text \<open>
  The loop \<^verbatim>\<open>for (let i = event.resultIndex; i < event.results.length; ++i)\<close> with its
  accumulator \<^verbatim>\<open>finalTranscript\<close>.
\<close>

function finalTranscript ::
  "nat \<Rightarrow> SpeechRecognitionResult list \<Rightarrow> jsstring \<Rightarrow> error + jsstring" where
  "finalTranscript i rs acc =
     (if i < length rs then
        (if isFinal (rs ! i) then
           (case alternatives (rs ! i) of
              [] \<Rightarrow> Inl TypeError
            | t # _ \<Rightarrow> finalTranscript (i + 1) rs (acc @ t))
         else finalTranscript (i + 1) rs acc)
      else Inr acc)"
  by pat_completeness auto
termination
  by (relation "measure (\<lambda>(i, rs, acc). length rs - i)") auto

declare finalTranscript.simps [simp del]

text \<open>
  \<^verbatim>\<open>recognition.onresult\<close>. The handler touches no state of the component; its effect is
  the list of calls it makes to \<^verbatim>\<open>onDictation\<close>, each call given by its argument. A JavaScript
  string is truthy when it is not empty.
\<close>

definition onresult :: "SpeechRecognitionEvent \<Rightarrow> error + jsstring list" where
  "onresult event =
     (case finalTranscript (resultIndex event) (results event) [] of
        Inl e \<Rightarrow> Inl e
      | Inr ft \<Rightarrow> Inr (if ft \<noteq> [] then [trim ft] else []))"

text \<open>
  The contract of the result handler in the spec's words: over the results from the
  start index to the end, the top hypotheses of the final entries, concatenated in order;
  one call with the trimmed concatenation when it is not empty, no call otherwise.
\<close>

definition top_hypothesis :: "SpeechRecognitionResult \<Rightarrow> jsstring" where
  "top_hypothesis r = hd (alternatives r)"

definition newly_final :: "SpeechRecognitionEvent \<Rightarrow> SpeechRecognitionResult list" where
  "newly_final event = filter isFinal (drop (resultIndex event) (results event))"

definition forwarded_spec :: "SpeechRecognitionEvent \<Rightarrow> jsstring list" where
  "forwarded_spec event =
     (let acc = concat (map top_hypothesis (newly_final event))
      in if acc \<noteq> [] then [trim acc] else [])"

text \<open>Every final entry of the scanned range has a top hypothesis.\<close>

definition well_formed_event :: "SpeechRecognitionEvent \<Rightarrow> bool" where
  "well_formed_event event \<longleftrightarrow> list_all (\<lambda>r. alternatives r \<noteq> []) (newly_final event)"

subsection \<open>Constants\<close>

text \<open>
  The silence duration, in milliseconds; the analyser's FFT size, of which a frame of
  time-domain data has half as many bytes (\<^verbatim>\<open>frequencyBinCount\<close>); and the threshold of
  the average volume.
\<close>

definition SILENCE_DURATION_MS :: nat where
  "SILENCE_DURATION_MS = 2000"

definition FFT_SIZE :: nat where
  "FFT_SIZE = 256"

definition SILENCE_THRESHOLD :: rat where
  "SILENCE_THRESHOLD = 5"

subsection \<open>The host: objects, timeouts and animation frames\<close>

text \<open>
  The recognizer is the object the effect creates at mount; of its inner state the
  component can observe one bit, whether \<^verbatim>\<open>start\<close> and \<^verbatim>\<open>stop\<close> throw. \<^verbatim>\<open>start\<close> of a
  started recognizer throws an InvalidStateError; \<^verbatim>\<open>stop\<close> "can throw if already
  stopped", as the source's comment has it.
\<close>

record SpeechRecognition =
  continuous :: bool
  interimResults :: bool
  lang :: string
  started :: bool

definition recognition_start :: "SpeechRecognition \<Rightarrow> error + SpeechRecognition" where
  "recognition_start r = (if started r then Inl InvalidStateError else Inr (r\<lparr>started := True\<rparr>))"

definition recognition_stop :: "SpeechRecognition \<Rightarrow> error + SpeechRecognition" where
  "recognition_stop r = (if started r then Inr (r\<lparr>started := False\<rparr>) else Inl InvalidStateError)"

text \<open>
  \<^verbatim>\<open>AudioContext.state\<close> and \<^verbatim>\<open>MediaStreamTrack.readyState\<close>. An audio context and a
  track are objects of the host, known by an identifier; a media stream is the list of
  its tracks.
\<close>

datatype audio_state = Suspended | Running | Closed

datatype ready_state = Live | Ended

type_synonym MediaStream = "nat list"

text \<open>
  The world: the component's React state and its five refs, then the host. A timeout
  is pending with its handle and the time at which it is due; every timeout of the
  component has \<^verbatim>\<open>stopDictation\<close> as its callback, and every animation frame request
  has \<^verbatim>\<open>monitorAudio\<close>. Handles and identifiers are positive and never given twice
  (\<^verbatim>\<open>handles\<close> is the last one given). \<^verbatim>\<open>alerts\<close> and \<^verbatim>\<open>console\<close> are what the user
  and the log have been shown.
\<close>

record world =
  isDictating :: bool
  recognitionRef :: "SpeechRecognition option"
  audioContextRef :: "nat option"
  streamRef :: "MediaStream option"
  silenceTimerRef :: "nat option"
  animationFrameRef :: "nat option"
  contexts :: "nat \<rightharpoonup> audio_state"
  tracks :: "nat \<rightharpoonup> ready_state"
  timeouts :: "(nat \<times> nat) list"
  animation_frames :: "nat list"
  clock :: nat
  handles :: nat
  alerts :: "string list"
  console :: "string list"

text \<open>
  Truthiness: an object reference is truthy unless it is \<^verbatim>\<open>null\<close>; a number is truthy
  unless it is \<^verbatim>\<open>null\<close> or 0. A \<^verbatim>\<open>null\<close> passed where the host expects a handle is the
  handle 0, which no request has.
\<close>

definition truthy :: "'a option \<Rightarrow> bool" where
  "truthy r \<longleftrightarrow> r \<noteq> None"

definition truthy_number :: "nat option \<Rightarrow> bool" where
  "truthy_number r \<longleftrightarrow> (case r of None \<Rightarrow> False | Some n \<Rightarrow> n \<noteq> 0)"

definition handle_of :: "nat option \<Rightarrow> nat" where
  "handle_of r = (case r of None \<Rightarrow> 0 | Some n \<Rightarrow> n)"

definition setTimeout :: "nat \<Rightarrow> world \<Rightarrow> nat \<times> world" where
  "setTimeout delay w =
     (let h = Suc (handles w)
      in (h, w\<lparr>handles := h, timeouts := timeouts w @ [(h, clock w + delay)]\<rparr>))"

definition clearTimeout :: "nat \<Rightarrow> world \<Rightarrow> world" where
  "clearTimeout h w = w\<lparr>timeouts := filter (\<lambda>t. fst t \<noteq> h) (timeouts w)\<rparr>"

definition requestAnimationFrame :: "world \<Rightarrow> nat \<times> world" where
  "requestAnimationFrame w =
     (let h = Suc (handles w)
      in (h, w\<lparr>handles := h, animation_frames := animation_frames w @ [h]\<rparr>))"

definition cancelAnimationFrame :: "nat \<Rightarrow> world \<Rightarrow> world" where
  "cancelAnimationFrame h w = w\<lparr>animation_frames := filter (\<lambda>f. f \<noteq> h) (animation_frames w)\<rparr>"

text \<open>\<^verbatim>\<open>track.stop()\<close> ends a track; it never throws.\<close>

definition track_stop :: "nat \<Rightarrow> world \<Rightarrow> world" where
  "track_stop t w = w\<lparr>tracks := (tracks w)(t \<mapsto> Ended)\<rparr>"

text \<open>
  \<^verbatim>\<open>audioContext.close()\<close> closes a context. On a closed context the call fails (its
  promise is rejected with an InvalidStateError); the model counts that as an error of
  the call.
\<close>

definition context_close :: "nat \<Rightarrow> world \<Rightarrow> error + world" where
  "context_close c w =
     (if contexts w c = Some Closed then Inl InvalidStateError
      else Inr (w\<lparr>contexts := (contexts w)(c \<mapsto> Closed)\<rparr>))"

text \<open>
  A method call on a reference: on \<^verbatim>\<open>null\<close> it throws a TypeError. Errors are
  propagated by \<^verbatim>\<open>and_then\<close>.
\<close>

definition deref :: "'a option \<Rightarrow> error + 'a" where
  "deref r = (case r of None \<Rightarrow> Inl TypeError | Some x \<Rightarrow> Inr x)"

definition and_then :: "error + 'a \<Rightarrow> ('a \<Rightarrow> error + 'b) \<Rightarrow> error + 'b" where
  "and_then m f = (case m of Inl e \<Rightarrow> Inl e | Inr x \<Rightarrow> f x)"

subsection \<open>\<^verbatim>\<open>stopDictation\<close>\<close>

text \<open>
  The five guarded blocks of \<^verbatim>\<open>stopDictation\<close>, in the source's order, and the state
  update that ends it. The first one is
  \<^verbatim>\<open>if (recognitionRef.current) { try { recognitionRef.current.stop(); } catch (e) {} }\<close>:
  what the \<^verbatim>\<open>try\<close> block throws is caught and ignored, and the world is as it was at
  the throw.
\<close>

definition recognition_current_stop :: "world \<Rightarrow> error + world" where
  "recognition_current_stop w =
     and_then (deref (recognitionRef w)) (\<lambda>r.
     and_then (recognition_stop r) (\<lambda>r'.
     Inr (w\<lparr>recognitionRef := Some r'\<rparr>)))"

definition stop_recognition :: "world \<Rightarrow> error + world" where
  "stop_recognition w =
     (if truthy (recognitionRef w) then
        (case recognition_current_stop w of Inl e \<Rightarrow> Inr w | Inr w' \<Rightarrow> Inr w')
      else Inr w)"

definition stop_analysis_loop :: "world \<Rightarrow> error + world" where
  "stop_analysis_loop w =
     (if truthy_number (animationFrameRef w) then
        Inr ((cancelAnimationFrame (handle_of (animationFrameRef w)) w)\<lparr>animationFrameRef := None\<rparr>)
      else Inr w)"

definition clear_silence_timer :: "world \<Rightarrow> error + world" where
  "clear_silence_timer w =
     (if truthy_number (silenceTimerRef w) then
        Inr ((clearTimeout (handle_of (silenceTimerRef w)) w)\<lparr>silenceTimerRef := None\<rparr>)
      else Inr w)"

definition release_microphone :: "world \<Rightarrow> error + world" where
  "release_microphone w =
     (if truthy (streamRef w) then
        and_then (deref (streamRef w)) (\<lambda>stream.
        Inr ((fold track_stop stream w)\<lparr>streamRef := None\<rparr>))
      else Inr w)"

definition close_audio_context :: "world \<Rightarrow> error + world" where
  "close_audio_context w =
     (if truthy (audioContextRef w) \<and>
         (case audioContextRef w of None \<Rightarrow> False | Some c \<Rightarrow> contexts w c \<noteq> Some Closed) then
        and_then (deref (audioContextRef w)) (\<lambda>c.
        and_then (context_close c w) (\<lambda>w'.
        Inr (w'\<lparr>audioContextRef := None\<rparr>)))
      else Inr w)"

definition stopDictation :: "world \<Rightarrow> error + world" where
  "stopDictation w =
     and_then (stop_recognition w) (\<lambda>w1.
     and_then (stop_analysis_loop w1) (\<lambda>w2.
     and_then (clear_silence_timer w2) (\<lambda>w3.
     and_then (release_microphone w3) (\<lambda>w4.
     and_then (close_audio_context w4) (\<lambda>w5.
     Inr (w5\<lparr>isDictating := False\<rparr>))))))"

subsection \<open>\<^verbatim>\<open>monitorAudio\<close>\<close>

text \<open>
  One frame of time-domain data is a \<^verbatim>\<open>Uint8Array\<close>. The average volume is the sum of
  \<^verbatim>\<open>Math.abs(dataArray[i] - 128)\<close> divided by the length. For the analyser's frame of
  128 bytes the division is by a power of two, which is exact in doubles; for any frame
  short of \<open>2 ^ 50\<close> bytes the quotient of the two integers is above 5 in doubles
  exactly when it is above 5 in the rationals (rounding is monotone, 5 is a double, and
  a quotient above 5 is above it by at least one over the length). On an empty frame
  the quotient is \<^verbatim>\<open>NaN\<close> in JavaScript and 0 here, and neither is above the threshold.
\<close>

type_synonym frame = "8 word list"

definition averageVolume :: "frame \<Rightarrow> rat" where
  "averageVolume dataArray =
     of_int (fold (\<lambda>b sum. sum + \<bar>int (unat b) - 128\<bar>) dataArray 0) / of_nat (length dataArray)"

definition monitorAudio :: "frame \<Rightarrow> world \<Rightarrow> world" where
  "monitorAudio dataArray w =
     (let w1 =
        (if averageVolume dataArray > SILENCE_THRESHOLD then
           (if truthy_number (silenceTimerRef w) then
              (clearTimeout (handle_of (silenceTimerRef w)) w)\<lparr>silenceTimerRef := None\<rparr>
            else w)
         else
           (if \<not> truthy_number (silenceTimerRef w) then
              (let (h, w') = setTimeout SILENCE_DURATION_MS w in w'\<lparr>silenceTimerRef := Some h\<rparr>)
            else w));
        (f, w2) = requestAnimationFrame w1
      in w2\<lparr>animationFrameRef := Some f\<rparr>)"

subsection \<open>\<^verbatim>\<open>startDictation\<close>\<close>

text \<open>
  What the host answers during one start: \<^verbatim>\<open>getUserMedia\<close> rejects or gives a stream
  of some tracks; the \<^verbatim>\<open>AudioContext\<close> constructor throws or gives a new context,
  running or suspended (a new context is never closed); building the graph
  (\<^verbatim>\<open>createMediaStreamSource\<close>, \<^verbatim>\<open>createAnalyser\<close>, \<^verbatim>\<open>connect\<close>) throws or not; and the
  first frame the analyser gives.
\<close>

record acquisition =
  getUserMedia :: "error + nat"
  newAudioContext :: "error + bool"
  buildGraph :: "error option"
  firstFrame :: frame

definition new_stream :: "nat \<Rightarrow> world \<Rightarrow> MediaStream \<times> world" where
  "new_stream n w =
     (let ids = [Suc (handles w) ..< Suc (handles w) + n]
      in (ids, w\<lparr>handles := handles w + n,
                 tracks := (\<lambda>t. if t \<in> set ids then Some Live else tracks w t)\<rparr>))"

definition new_context :: "bool \<Rightarrow> world \<Rightarrow> nat \<times> world" where
  "new_context running w =
     (let c = Suc (handles w)
      in (c, w\<lparr>handles := c,
               contexts := (contexts w)(c \<mapsto> (if running then Running else Suspended))\<rparr>))"

text \<open>
  The body of the \<^verbatim>\<open>try\<close> block. An exception leaves it with the world as it is at
  the throw: \<open>Inl (e, w)\<close>.
\<close>

definition acquire :: "acquisition \<Rightarrow> world \<Rightarrow> (error \<times> world) + world" where
  "acquire host w0 =
     (case getUserMedia host of
        Inl e \<Rightarrow> Inl (e, w0)
      | Inr n \<Rightarrow>
          (let (stream, w1) = new_stream n w0;
               w2 = w1\<lparr>streamRef := Some stream\<rparr>
           in case newAudioContext host of
                Inl e \<Rightarrow> Inl (e, w2)
              | Inr running \<Rightarrow>
                  (let (audioContext, w3) = new_context running w2;
                       w4 = w3\<lparr>audioContextRef := Some audioContext\<rparr>
                   in case buildGraph host of
                        Some e \<Rightarrow> Inl (e, w4)
                      | None \<Rightarrow>
                          (let w5 = monitorAudio (firstFrame host) w4
                           in case deref (recognitionRef w5) of
                                Inl e \<Rightarrow> Inl (e, w5)
                              | Inr r \<Rightarrow>
                                  (case recognition_start r of
                                     Inl e \<Rightarrow> Inl (e, w5)
                                   | Inr r' \<Rightarrow> Inr (w5\<lparr>recognitionRef := Some r'\<rparr>))))))"

definition start_error_message :: string where
  "start_error_message = ''Could not start dictation. Please ensure microphone permissions are granted.''"

text \<open>
  \<^verbatim>\<open>startDictation\<close> from the \<^verbatim>\<open>await\<close> on: the \<^verbatim>\<open>try\<close> block and its \<^verbatim>\<open>catch\<close>.
\<close>

definition startDictation_resume :: "acquisition \<Rightarrow> world \<Rightarrow> error + world" where
  "startDictation_resume host w =
     (case acquire host w of
        Inr w' \<Rightarrow> Inr w'
      | Inl (e, w') \<Rightarrow>
          stopDictation
            (w'\<lparr>console := console w' @ [''Error starting dictation:''],
                alerts := alerts w' @ [start_error_message]\<rparr>))"

text \<open>
  \<^verbatim>\<open>startDictation\<close>, with no other event between the call of \<^verbatim>\<open>getUserMedia\<close> and
  its answer.
\<close>

definition startDictation :: "acquisition \<Rightarrow> world \<Rightarrow> error + world" where
  "startDictation host w =
     (if \<not> truthy (recognitionRef w) then Inr w
      else startDictation_resume host (w\<lparr>isDictating := True\<rparr>))"

subsection \<open>The effect, the handlers and the toggle\<close>

definition useEffect :: "bool \<Rightarrow> world \<Rightarrow> world" where
  "useEffect isSupported w =
     (if \<not> isSupported then w
      else w\<lparr>recognitionRef :=
               Some \<lparr>continuous = True, interimResults = True, lang = ''en-US'', started = False\<rparr>\<rparr>)"

definition onend :: "world \<Rightarrow> error + world" where
  "onend w = stopDictation w"

definition onerror :: "world \<Rightarrow> error + world" where
  "onerror w = stopDictation (w\<lparr>console := console w @ [''Speech recognition error:'']\<rparr>)"

definition toggleDictation :: "acquisition \<Rightarrow> world \<Rightarrow> error + world" where
  "toggleDictation host w = (if isDictating w then stopDictation w else startDictation host w)"

definition initial :: world where
  "initial =
     \<lparr>isDictating = False, recognitionRef = None, audioContextRef = None, streamRef = None,
      silenceTimerRef = None, animationFrameRef = None, contexts = Map.empty,
      tracks = Map.empty, timeouts = [], animation_frames = [], clock = 0, handles = 0,
      alerts = [], console = []\<rparr>"

subsection \<open>The event loop of the host\<close>

text \<open>
  A tick is one animation frame of the host: the time since the previous tick, in
  milliseconds, and the frame of audio data the analyser gives at it. At a tick the
  clock advances; the timeouts that are due run their callback, \<^verbatim>\<open>stopDictation\<close>, each
  one unless an earlier callback has cleared it; then the animation frame callbacks
  that are still requested run \<^verbatim>\<open>monitorAudio\<close>, each one after its request is taken
  off the list.
\<close>

type_synonym tick = "nat \<times> frame"

definition run_timeout :: "nat \<times> nat \<Rightarrow> world \<Rightarrow> error + world" where
  "run_timeout t w =
     (if t \<in> set (timeouts w) \<and> snd t \<le> clock w then
        stopDictation (w\<lparr>timeouts := removeAll t (timeouts w)\<rparr>)
      else Inr w)"

fun run_timeouts :: "(nat \<times> nat) list \<Rightarrow> world \<Rightarrow> error + world" where
  "run_timeouts [] w = Inr w"
| "run_timeouts (t # ts) w = and_then (run_timeout t w) (run_timeouts ts)"

definition run_frame :: "frame \<Rightarrow> nat \<Rightarrow> world \<Rightarrow> world" where
  "run_frame dataArray f w =
     (if f \<in> set (animation_frames w) then
        monitorAudio dataArray (w\<lparr>animation_frames := removeAll f (animation_frames w)\<rparr>)
      else w)"

definition tick :: "tick \<Rightarrow> world \<Rightarrow> error + world" where
  "tick t w =
     (let w1 = w\<lparr>clock := clock w + fst t\<rparr>
      in and_then (run_timeouts (timeouts w1) w1) (\<lambda>w2.
         Inr (fold (run_frame (snd t)) (animation_frames w2) w2)))"

fun run :: "tick list \<Rightarrow> world \<Rightarrow> error + world" where
  "run [] w = Inr w"
| "run (t # ts) w = and_then (tick t w) (run ts)"

text \<open>The worlds a run goes through, from the first one on, as far as it gets.\<close>

fun trace :: "tick list \<Rightarrow> world \<Rightarrow> world list" where
  "trace [] w = [w]"
| "trace (t # ts) w = w # (case tick t w of Inl e \<Rightarrow> [] | Inr w' \<Rightarrow> trace ts w')"

text \<open>The number of times the session goes from dictating to not dictating.\<close>

fun stops :: "world list \<Rightarrow> nat" where
  "stops (a # b # ws) = (if isDictating a \<and> \<not> isDictating b then 1 else 0) + stops (b # ws)"
| "stops ws = 0"

subsection \<open>Events\<close>

text \<open>
  What can happen to the mounted component, one event at a time: the effect runs; the
  button is clicked; \<^verbatim>\<open>startDictation\<close> is called and runs up to its \<^verbatim>\<open>await\<close>; it is
  resumed with the host's answers; \<^verbatim>\<open>stopDictation\<close> is called (by the toggle or by the
  effect's cleanup); the recognizer ends, which finds it not started and runs
  \<^verbatim>\<open>onend\<close>; the recognizer reports an error; a result arrives (its handler changes
  nothing of the world, its calls of \<^verbatim>\<open>onDictation\<close> are those of \<open>onresult\<close>); a tick.
  The events are not constrained to the orders the host can produce them in: a
  property of every sequence of events holds of every sequence the host produces.
\<close>

datatype event =
    Mount bool
  | Toggle acquisition
  | StartCalled
  | StartResumed acquisition
  | Stop
  | RecognitionEnd
  | RecognitionError
  | Result SpeechRecognitionEvent
  | Tick tick

definition startDictation_call :: "world \<Rightarrow> world" where
  "startDictation_call w = (if \<not> truthy (recognitionRef w) then w else w\<lparr>isDictating := True\<rparr>)"

fun step :: "event \<Rightarrow> world \<Rightarrow> error + world" where
  "step (Mount isSupported) w = Inr (useEffect isSupported w)"
| "step (Toggle host) w = toggleDictation host w"
| "step StartCalled w = Inr (startDictation_call w)"
| "step (StartResumed host) w = startDictation_resume host w"
| "step Stop w = stopDictation w"
| "step RecognitionEnd w =
     onend (w\<lparr>recognitionRef := map_option (\<lambda>r. r\<lparr>started := False\<rparr>) (recognitionRef w)\<rparr>)"
| "step RecognitionError w = onerror w"
| "step (Result e) w = Inr w"
| "step (Tick t) w = tick t w"

fun exec :: "event list \<Rightarrow> world \<Rightarrow> error + world" where
  "exec [] w = Inr w"
| "exec (e # es) w = and_then (step e w) (exec es)"

subsection \<open>The states of the session\<close>

text \<open>
  Idle: not dictating, the four handles of the session \<^verbatim>\<open>null\<close>, and nothing of the
  component pending in the host. Active: dictating, the recognizer started, a stream
  and an open audio context held, one animation frame requested and held in its ref,
  and either no timeout pending and none in the ref, or the one in the ref pending,
  due no later than the silence duration from now. What an active session holds was
  given by the host: it is positive and at most \<^verbatim>\<open>handles\<close>.
\<close>

definition Idle :: "world \<Rightarrow> bool" where
  "Idle w \<longleftrightarrow>
     \<not> isDictating w \<and> animationFrameRef w = None \<and> silenceTimerRef w = None \<and>
     streamRef w = None \<and> audioContextRef w = None \<and>
     timeouts w = [] \<and> animation_frames w = []"

definition given :: "world \<Rightarrow> nat \<Rightarrow> bool" where
  "given w h \<longleftrightarrow> 0 < h \<and> h \<le> handles w"

definition Active :: "world \<Rightarrow> bool" where
  "Active w \<longleftrightarrow>
     isDictating w \<and>
     (case recognitionRef w of None \<Rightarrow> False | Some r \<Rightarrow> started r) \<and>
     (case streamRef w of None \<Rightarrow> False | Some stream \<Rightarrow> list_all (given w) stream) \<and>
     (case audioContextRef w of
        None \<Rightarrow> False
      | Some c \<Rightarrow> given w c \<and> contexts w c \<noteq> Some Closed) \<and>
     (case animationFrameRef w of
        None \<Rightarrow> False
      | Some f \<Rightarrow> given w f \<and> animation_frames w = [f]) \<and>
     (case silenceTimerRef w of
        None \<Rightarrow> timeouts w = []
      | Some h \<Rightarrow>
          given w h \<and>
          (case timeouts w of
             [t] \<Rightarrow> fst t = h \<and> snd t \<le> clock w + SILENCE_DURATION_MS
           | _ \<Rightarrow> False))"

text \<open>A frame is quiet when its average volume is not above the threshold.\<close>

definition quiet :: "frame \<Rightarrow> bool" where
  "quiet dataArray \<longleftrightarrow> \<not> averageVolume dataArray > SILENCE_THRESHOLD"

subsection \<open>Definitions for the statements\<close>

text \<open>
  The world \<^verbatim>\<open>stopDictation\<close> leaves, written as one update of the world it is called
  in; \<open>stopDictation_after_stop\<close> below proves that it is.
\<close>

definition after_stop :: "world \<Rightarrow> world" where
  "after_stop w =
     w\<lparr>isDictating := False,
       recognitionRef := map_option (\<lambda>r. r\<lparr>started := False\<rparr>) (recognitionRef w),
       audioContextRef :=
         (case audioContextRef w of
            None \<Rightarrow> None
          | Some c \<Rightarrow> if contexts w c = Some Closed then Some c else None),
       streamRef := None,
       silenceTimerRef := (if truthy_number (silenceTimerRef w) then None else silenceTimerRef w),
       animationFrameRef :=
         (if truthy_number (animationFrameRef w) then None else animationFrameRef w),
       contexts :=
         (case audioContextRef w of None \<Rightarrow> contexts w | Some c \<Rightarrow> (contexts w)(c \<mapsto> Closed)),
       tracks :=
         (\<lambda>t. if t \<in> set (case streamRef w of None \<Rightarrow> [] | Some stream \<Rightarrow> stream)
              then Some Ended else tracks w t),
       timeouts :=
         (if truthy_number (silenceTimerRef w)
          then filter (\<lambda>t. fst t \<noteq> handle_of (silenceTimerRef w)) (timeouts w)
          else timeouts w),
       animation_frames :=
         (if truthy_number (animationFrameRef w)
          then filter (\<lambda>f. f \<noteq> handle_of (animationFrameRef w)) (animation_frames w)
          else animation_frames w)\<rparr>"

text \<open>The host grants everything a start asks of it.\<close>

definition host_succeeds :: "acquisition \<Rightarrow> bool" where
  "host_succeeds host \<longleftrightarrow>
     (case getUserMedia host of Inl e \<Rightarrow> False | Inr n \<Rightarrow> True) \<and>
     (case newAudioContext host of Inl e \<Rightarrow> False | Inr b \<Rightarrow> True) \<and>
     buildGraph host = None"

text \<open>
  What a failed start must leave of the world \<open>w\<close> it began in: an idle session; no
  live track but those that were live before; no audio context that is not closed but
  those that are as they were before; and the recognizer of before, stopped.
\<close>

definition cleaned :: "world \<Rightarrow> world \<Rightarrow> bool" where
  "cleaned w w' \<longleftrightarrow>
     Idle w' \<and>
     (\<forall>t. tracks w' t = Some Live \<longrightarrow> tracks w t = Some Live) \<and>
     (\<forall>c. contexts w' c \<noteq> Some Closed \<longrightarrow> contexts w' c = contexts w c) \<and>
     recognitionRef w' = map_option (\<lambda>r. r\<lparr>started := False\<rparr>) (recognitionRef w)"

text \<open>
  At most one timeout is pending, and the one that is pending is the one the ref holds.
\<close>

definition timer_inv :: "world \<Rightarrow> bool" where
  "timer_inv w \<longleftrightarrow>
     (case timeouts w of
        [] \<Rightarrow> True
      | [t] \<Rightarrow> 0 < fst t \<and> silenceTimerRef w = Some (fst t)
      | _ \<Rightarrow> False)"

text \<open>
  Ticks 1000 ms apart whose frames are in turn above the threshold and not, the first
  one above it when \<open>loud\<close>.
\<close>

fun alternates :: "bool \<Rightarrow> tick list \<Rightarrow> bool" where
  "alternates loud [] = True"
| "alternates loud (t # ts) = (fst t = 1000 \<and> (\<not> quiet (snd t)) = loud \<and> alternates (\<not> loud) ts)"

text \<open>
  The same signal sampled at any rate: the volume is above the threshold during every
  other window of 1000 ms (the even ones when \<open>phase\<close>), and the ticks, at most 1000 ms
  apart, find it as it is at their time.
\<close>

definition loud_at :: "bool \<Rightarrow> nat \<Rightarrow> bool" where
  "loud_at phase time \<longleftrightarrow> even (time div 1000) = phase"

fun follows_wave :: "bool \<Rightarrow> nat \<Rightarrow> tick list \<Rightarrow> bool" where
  "follows_wave phase now [] = True"
| "follows_wave phase now (t # ts) =
     (fst t \<le> 1000 \<and> (\<not> quiet (snd t)) = loud_at phase (now + fst t) \<and>
      follows_wave phase (now + fst t) ts)"

subsection \<open>Example worlds\<close>

text \<open>
  The component mounted where speech recognition is supported; two frames, one above
  the threshold and one not; a host that grants a start with a loud first frame, one
  with a quiet first frame, and one that denies the microphone; and the two active
  sessions that starting from \<open>mounted\<close> gives with the first two hosts.
\<close>

definition mounted :: world where
  "mounted = useEffect True initial"

definition loud_frame :: frame where
  "loud_frame = [255, 250]"

definition quiet_frame :: frame where
  "quiet_frame = [128, 127]"

definition host_granted :: acquisition where
  "host_granted =
     \<lparr>getUserMedia = Inr 1, newAudioContext = Inr True, buildGraph = None,
      firstFrame = loud_frame\<rparr>"

definition host_quiet :: acquisition where
  "host_quiet =
     \<lparr>getUserMedia = Inr 1, newAudioContext = Inr True, buildGraph = None,
      firstFrame = quiet_frame\<rparr>"

definition host_denied :: acquisition where
  "host_denied =
     \<lparr>getUserMedia = Inl NotAllowedError, newAudioContext = Inr True, buildGraph = None,
      firstFrame = quiet_frame\<rparr>"

definition active_example :: world where
  "active_example =
     \<lparr>isDictating = True,
      recognitionRef =
        Some \<lparr>continuous = True, interimResults = True, lang = ''en-US'', started = True\<rparr>,
      audioContextRef = Some 2, streamRef = Some [1], silenceTimerRef = None,
      animationFrameRef = Some 3, contexts = [2 \<mapsto> Running], tracks = [1 \<mapsto> Live],
      timeouts = [], animation_frames = [3], clock = 0, handles = 3, alerts = [],
      console = []\<rparr>"

definition armed_example :: world where
  "armed_example =
     \<lparr>isDictating = True,
      recognitionRef =
        Some \<lparr>continuous = True, interimResults = True, lang = ''en-US'', started = True\<rparr>,
      audioContextRef = Some 2, streamRef = Some [1], silenceTimerRef = Some 3,
      animationFrameRef = Some 4, contexts = [2 \<mapsto> Running], tracks = [1 \<mapsto> Live],
      timeouts = [(3, 2000)], animation_frames = [4], clock = 0, handles = 4, alerts = [],
      console = []\<rparr>"

text \<open>
  A recognition event whose new results start at index 1: two final entries around an
  interim one, the first with two alternatives. And an event whose one final entry is a
  single space.
\<close>

definition event_example :: SpeechRecognitionEvent where
  "event_example =
     \<lparr>resultIndex = 1,
      results =
        [\<lparr>isFinal = True, alternatives = [utf16 ''Old '']\<rparr>,
         \<lparr>isFinal = True, alternatives = [utf16 '' Hello '', utf16 ''Hallo'']\<rparr>,
         \<lparr>isFinal = False, alternatives = [utf16 ''wor'']\<rparr>,
         \<lparr>isFinal = True, alternatives = [utf16 ''you. '']\<rparr>]\<rparr>"

definition event_whitespace :: SpeechRecognitionEvent where
  "event_whitespace =
     \<lparr>resultIndex = 0, results = [\<lparr>isFinal = True, alternatives = [utf16 '' '']\<rparr>]\<rparr>"

section \<open>Properties\<close>

subsection \<open>The result handler\<close>

lemma finalTranscript_spec:
  "list_all (\<lambda>r. alternatives r \<noteq> []) (filter isFinal (drop i rs)) \<Longrightarrow>
   finalTranscript i rs acc = Inr (acc @ concat (map top_hypothesis (filter isFinal (drop i rs))))"
proof (induction i rs acc rule: finalTranscript.induct)
  case (1 i rs acc)
  note unfold = finalTranscript.simps [of i rs acc]
  show ?case
  proof (cases "i < length rs")
    case False
    then show ?thesis by (simp add: unfold)
  next
    case True
    then have d: "drop i rs = rs ! i # drop (i + 1) rs"
      by (simp add: Cons_nth_drop_Suc)
    show ?thesis
    proof (cases "isFinal (rs ! i)")
      case False
      with True "1.prems" have "list_all (\<lambda>r. alternatives r \<noteq> []) (filter isFinal (drop (i + 1) rs))"
        by (simp add: d)
      with True False "1.IH"(2) have "finalTranscript (i + 1) rs acc =
          Inr (acc @ concat (map top_hypothesis (filter isFinal (drop (i + 1) rs))))"
        by simp
      with True False show ?thesis by (simp add: unfold d)
    next
      case fin: True
      with "1.prems" have ne: "alternatives (rs ! i) \<noteq> []"
        and rest: "list_all (\<lambda>r. alternatives r \<noteq> []) (filter isFinal (drop (i + 1) rs))"
        by (simp_all add: d)
      then obtain t ts where a: "alternatives (rs ! i) = t # ts"
        by (cases "alternatives (rs ! i)") auto
      with True fin "1.IH"(1) rest have "finalTranscript (i + 1) rs (acc @ t) =
          Inr ((acc @ t) @ concat (map top_hypothesis (filter isFinal (drop (i + 1) rs))))"
        by simp
      moreover have "top_hypothesis (rs ! i) = t"
        by (simp add: top_hypothesis_def a)
      ultimately show ?thesis using True fin a by (simp add: unfold d)
    qed
  qed
qed

text \<open>
  Claim C3. On a recognition event the handler scans the results from \<^verbatim>\<open>resultIndex\<close>
  to the end, concatenates the top hypotheses of the final entries in order, leaves the
  interim entries out, and calls \<^verbatim>\<open>onDictation\<close> once with the trimmed concatenation
  when the concatenation is not empty, and not at all when it is empty.
\<close>

theorem onresult_forwards:
  "well_formed_event event \<Longrightarrow> onresult event = Inr (forwarded_spec event)"
  by (simp add: onresult_def forwarded_spec_def well_formed_event_def newly_final_def
      finalTranscript_spec)

theorem onresult_forwards_witness:
  "well_formed_event event_example \<and> onresult event_example = Inr [utf16 ''Hello you.'']"
proof -
  have w: "well_formed_event event_example"
    by (simp add: well_formed_event_def newly_final_def event_example_def)
  have "forwarded_spec event_example = [utf16 ''Hello you.'']"
    by (simp add: forwarded_spec_def newly_final_def event_example_def top_hypothesis_def
        utf16_def trim_def isWhiteSpace_def)
  with onresult_forwards [OF w] w show ?thesis by simp
qed

lemma trimmed_trim: "trimmed (trim s)"
proof -
  define a where "a = dropWhile isWhiteSpace s"
  define d where "d = dropWhile isWhiteSpace (rev a)"
  have t: "trim s = rev d" by (simp add: trim_def a_def d_def)
  show ?thesis
  proof (cases d)
    case Nil
    then show ?thesis by (simp add: t trimmed_def)
  next
    case (Cons x xs)
    then have x: "\<not> isWhiteSpace x"
      using hd_dropWhile [of isWhiteSpace "rev a"] by (simp add: d_def)
    have "rev a = takeWhile isWhiteSpace (rev a) @ d"
      by (simp add: d_def)
    then have "rev (rev a) = rev (takeWhile isWhiteSpace (rev a) @ d)"
      by simp
    then have a_eq: "a = rev d @ rev (takeWhile isWhiteSpace (rev a))"
      by simp
    have "a \<noteq> []" using a_eq Cons by auto
    then have h: "\<not> isWhiteSpace (hd a)"
      using hd_dropWhile [of isWhiteSpace s] by (simp add: a_def)
    have "rev d \<noteq> []" using Cons by simp
    then have "hd a = hd (rev d)" using a_eq by (metis hd_append2)
    with h have h': "\<not> isWhiteSpace (hd (rev d))" by simp
    have l: "last (rev d) = x" using Cons by simp
    from \<open>rev d \<noteq> []\<close> h' x l show ?thesis
      by (cases "rev d") (simp_all add: t trimmed_def)
  qed
qed

lemma onresult_trimmed: "onresult event = Inr calls \<Longrightarrow> list_all trimmed calls"
  by (auto simp: onresult_def trimmed_trim split: sum.splits if_splits)

lemma onresult_at_most_once: "onresult event = Inr calls \<Longrightarrow> length calls \<le> 1"
  by (auto simp: onresult_def split: sum.splits if_splits)

text \<open>
  Claim C4 says that every call of \<^verbatim>\<open>onDictation\<close> has a trimmed text that is not
  empty. The text is always trimmed (\<open>onresult_trimmed\<close>). It can be empty: the handler
  tests the accumulated string before it trims it, so a final transcript of whitespace
  alone passes the test and is forwarded as the empty string.
\<close>

theorem onresult_whitespace_only: "onresult event_whitespace = Inr [[]]"
  by (simp add: onresult_def event_whitespace_def finalTranscript.simps utf16_def trim_def
      isWhiteSpace_def)

subsection \<open>\<^verbatim>\<open>stopDictation\<close>\<close>

lemma and_then_Inr [simp]: "and_then (Inr x) f = f x"
  by (simp add: and_then_def)

lemma and_then_Inl [simp]: "and_then (Inl e) f = Inl e"
  by (simp add: and_then_def)

lemma stop_recognition_Inr:
  "stop_recognition w =
     Inr (w\<lparr>recognitionRef := map_option (\<lambda>r. r\<lparr>started := False\<rparr>) (recognitionRef w)\<rparr>)"
  by (cases "recognitionRef w")
     (simp_all add: stop_recognition_def recognition_current_stop_def truthy_def deref_def
        recognition_stop_def)

lemma release_microphone_Inr:
  "release_microphone w =
     Inr (case streamRef w of None \<Rightarrow> w | Some stream \<Rightarrow> (fold track_stop stream w)\<lparr>streamRef := None\<rparr>)"
  by (cases "streamRef w") (simp_all add: release_microphone_def truthy_def deref_def)

lemma close_audio_context_Inr:
  "close_audio_context w =
     Inr (case audioContextRef w of
            None \<Rightarrow> w
          | Some c \<Rightarrow>
              if contexts w c = Some Closed then w
              else w\<lparr>contexts := (contexts w)(c \<mapsto> Closed), audioContextRef := None\<rparr>)"
  by (cases "audioContextRef w")
     (simp_all add: close_audio_context_def truthy_def deref_def context_close_def)

lemma fold_track_stop:
  "fold track_stop stream w =
     w\<lparr>tracks := (\<lambda>t. if t \<in> set stream then Some Ended else tracks w t)\<rparr>"
proof (induction stream arbitrary: w)
  case Nil
  then show ?case by simp
next
  case (Cons t ts)
  have "fold track_stop (t # ts) w = fold track_stop ts (track_stop t w)"
    by simp
  also have "\<dots> = (track_stop t w)\<lparr>tracks :=
      (\<lambda>x. if x \<in> set ts then Some Ended else tracks (track_stop t w) x)\<rparr>"
    by (rule Cons)
  also have "\<dots> = w\<lparr>tracks := (\<lambda>x. if x \<in> set (t # ts) then Some Ended else tracks w x)\<rparr>"
    by (auto simp: track_stop_def fun_eq_iff)
  finally show ?case .
qed

lemma stopDictation_after_stop: "stopDictation w = Inr (after_stop w)"
proof -
  have "stopDictation w = Inr (after_stop w)"
    if "recognitionRef w = rr" "animationFrameRef w = af" "silenceTimerRef w = st"
       "streamRef w = sr" "audioContextRef w = ac" for rr af st sr ac
    using that
    by (cases sr; cases ac)
       (auto simp: stopDictation_def stop_recognition_Inr stop_analysis_loop_def
          clear_silence_timer_def release_microphone_Inr close_audio_context_Inr
          fold_track_stop cancelAnimationFrame_def clearTimeout_def after_stop_def
          fun_eq_iff)
  then show ?thesis by simp
qed

lemma after_stop_idem: "after_stop (after_stop w) = after_stop w"
  by (cases "audioContextRef w"; cases "streamRef w")
     (auto simp: after_stop_def truthy_number_def handle_of_def option.map_comp comp_def fun_eq_iff
      split: option.splits)

lemma stopDictation_twice: "and_then (stopDictation w) stopDictation = stopDictation w"
  by (simp add: stopDictation_after_stop after_stop_idem)

lemma ActiveE:
  assumes "Active w"
  obtains r stream c f where
    "isDictating w" "recognitionRef w = Some r" "started r"
    "streamRef w = Some stream" "list_all (given w) stream"
    "audioContextRef w = Some c" "given w c" "contexts w c \<noteq> Some Closed"
    "animationFrameRef w = Some f" "given w f" "animation_frames w = [f]"
    "(silenceTimerRef w = None \<and> timeouts w = []) \<or>
     (\<exists>h d. silenceTimerRef w = Some h \<and> given w h \<and> timeouts w = [(h, d)] \<and>
        d \<le> clock w + SILENCE_DURATION_MS)"
proof -
  from assms have "\<exists>r stream c f. isDictating w \<and> recognitionRef w = Some r \<and> started r \<and>
    streamRef w = Some stream \<and> list_all (given w) stream \<and>
    audioContextRef w = Some c \<and> given w c \<and> contexts w c \<noteq> Some Closed \<and>
    animationFrameRef w = Some f \<and> given w f \<and> animation_frames w = [f] \<and>
    ((silenceTimerRef w = None \<and> timeouts w = []) \<or>
     (\<exists>h d. silenceTimerRef w = Some h \<and> given w h \<and> timeouts w = [(h, d)] \<and>
        d \<le> clock w + SILENCE_DURATION_MS))"
    unfolding Active_def
    by (cases "recognitionRef w"; cases "streamRef w"; cases "audioContextRef w";
        cases "animationFrameRef w"; cases "silenceTimerRef w")
       (auto split: list.splits)
  then show ?thesis using that by blast
qed

lemma Active_after_stop: "Active w \<Longrightarrow> Idle (after_stop w)"
  by (auto simp: Active_def Idle_def after_stop_def truthy_number_def handle_of_def given_def
      split: option.splits list.splits)

lemma loud_frame_loud: "\<not> quiet loud_frame"
  by (simp add: quiet_def loud_frame_def averageVolume_def SILENCE_THRESHOLD_def)

lemma quiet_frame_quiet: "quiet quiet_frame"
  by (simp add: quiet_def quiet_frame_def averageVolume_def SILENCE_THRESHOLD_def)

lemma Active_example: "Active active_example"
  by (simp add: Active_def active_example_def given_def)

lemma Idle_mounted: "Idle mounted"
  by (simp add: Idle_def mounted_def useEffect_def initial_def)

text \<open>
  Claim C1. From an active session, \<^verbatim>\<open>stopDictation\<close> called twice in a row ends in the
  idle state, with the animation frame, silence timer, stream and audio context handles
  all \<^verbatim>\<open>null\<close>; the second call returns and leaves the world exactly as the first call
  left it.
\<close>

theorem stopDictation_idempotent:
  assumes "Active w"
  shows "\<exists>w1. stopDictation w = Inr w1 \<and> stopDictation w1 = Inr w1 \<and>
    and_then (stopDictation w) stopDictation = Inr w1 \<and>
    Idle w1 \<and> \<not> isDictating w1 \<and> animationFrameRef w1 = None \<and> silenceTimerRef w1 = None \<and>
    streamRef w1 = None \<and> audioContextRef w1 = None"
proof -
  have "Idle (after_stop w)" using assms by (rule Active_after_stop)
  then show ?thesis
    by (simp add: stopDictation_after_stop after_stop_idem Idle_def)
qed

theorem stopDictation_idempotent_witness:
  "Active active_example \<and>
   (\<exists>w1. stopDictation active_example = Inr w1 \<and> stopDictation w1 = Inr w1 \<and> Idle w1)"
proof -
  have a: "Active active_example"
    by (simp add: Active_def active_example_def given_def)
  from stopDictation_idempotent [OF a] a show ?thesis by blast
qed

text \<open>
  Claim C9. \<^verbatim>\<open>stopDictation\<close> never throws, whatever the world it is called in, and
  neither does any of its five release steps: the \<^verbatim>\<open>null\<close> checks, the \<^verbatim>\<open>try\<close> around
  the recognizer's \<^verbatim>\<open>stop\<close> and the test of the audio context's state keep every call
  that could fail from failing.
\<close>

theorem stopDictation_never_throws:
  "(\<exists>w'. stopDictation w = Inr w') \<and>
   (\<exists>w'. stop_recognition w = Inr w') \<and> (\<exists>w'. stop_analysis_loop w = Inr w') \<and>
   (\<exists>w'. clear_silence_timer w = Inr w') \<and> (\<exists>w'. release_microphone w = Inr w') \<and>
   (\<exists>w'. close_audio_context w = Inr w')"
  by (simp add: stopDictation_after_stop stop_recognition_Inr stop_analysis_loop_def
      clear_silence_timer_def release_microphone_Inr close_audio_context_Inr)

text \<open>
  Claim C8 says that the stop path nulls every handle it releases, the recognizer handle
  among them, and that no handle is used by two sessions. The recognizer handle is not
  nulled: the stop path stops the recognizer and keeps it.
\<close>

theorem stop_keeps_recognizer_counterexample:
  "Active active_example \<and>
   map_sum id recognitionRef (stopDictation active_example) =
     Inr (Some \<lparr>continuous = True, interimResults = True, lang = ''en-US'', started = False\<rparr>)"
  by (simp add: Active_def active_example_def given_def stopDictation_def stop_recognition_def
      recognition_current_stop_def recognition_stop_def deref_def truthy_def truthy_number_def
      stop_analysis_loop_def clear_silence_timer_def release_microphone_def
      close_audio_context_def context_close_def cancelAnimationFrame_def clearTimeout_def
      handle_of_def track_stop_def)

subsection \<open>\<^verbatim>\<open>startDictation\<close>\<close>

lemmas start_defs = acquire_def new_stream_def new_context_def monitorAudio_def
  setTimeout_def requestAnimationFrame_def clearTimeout_def Let_def deref_def
  recognition_start_def truthy_number_def handle_of_def

lemma acquire_success:
  assumes "Idle w" "recognitionRef w = Some r" "\<not> started r" "host_succeeds host"
  shows "\<exists>w'. acquire host (w\<lparr>isDictating := True\<rparr>) = Inr w' \<and> Active w' \<and>
    handles w \<le> handles w' \<and>
    recognitionRef w' = Some (r\<lparr>started := True\<rparr>) \<and>
    (\<forall>t \<in> set (the (streamRef w')). handles w < t) \<and>
    handles w < the (audioContextRef w') \<and>
    handles w < the (animationFrameRef w') \<and>
    (\<forall>h. silenceTimerRef w' = Some h \<longrightarrow> handles w < h)"
proof -
  from assms(4) obtain n b where h: "getUserMedia host = Inr n" "newAudioContext host = Inr b"
    "buildGraph host = None"
    by (auto simp: host_succeeds_def split: sum.splits)
  show ?thesis
    using assms(1-3) h
    by (cases "averageVolume (firstFrame host) > SILENCE_THRESHOLD")
       (auto simp: start_defs Idle_def Active_def given_def list_all_iff SILENCE_DURATION_MS_def)
qed


lemma acquire_failure:
  assumes "Idle w" "acquire host (w\<lparr>isDictating := True\<rparr>) = Inl (e, w1)"
  shows "cleaned w (after_stop (w1\<lparr>console := c', alerts := a'\<rparr>)) \<and>
    alerts (after_stop (w1\<lparr>console := c', alerts := a'\<rparr>)) = a'"
proof (cases "getUserMedia host")
  case (Inl e1)
  with assms show ?thesis
    by (auto simp: acquire_def Idle_def after_stop_def cleaned_def truthy_number_def)
next
  case gum: (Inr n)
  show ?thesis
  proof (cases "newAudioContext host")
    case (Inl e2)
    with gum assms show ?thesis
      by (auto simp: acquire_def Idle_def after_stop_def cleaned_def truthy_number_def
          new_stream_def Let_def)
  next
    case ctx: (Inr b)
    show ?thesis
    proof (cases "buildGraph host")
      case (Some e3)
      with gum ctx assms show ?thesis
        by (auto simp: acquire_def Idle_def after_stop_def cleaned_def truthy_number_def
            new_stream_def new_context_def Let_def)
    next
      case None
      show ?thesis
      proof (cases "recognitionRef w")
        case rn: None
        with gum ctx None assms show ?thesis
          by (cases "averageVolume (firstFrame host) > SILENCE_THRESHOLD")
             (auto simp: start_defs Idle_def after_stop_def cleaned_def)
      next
        case (Some r)
        with gum ctx None assms show ?thesis
          by (cases "averageVolume (firstFrame host) > SILENCE_THRESHOLD"; cases "started r")
             (auto simp: start_defs Idle_def after_stop_def cleaned_def)
      qed
    qed
  qed
qed

lemma acquire_fails:
  assumes "recognitionRef w = Some r" "\<not> host_succeeds host \<or> started r"
  shows "\<exists>e w1. acquire host (w\<lparr>isDictating := True\<rparr>) = Inl (e, w1)"
proof (cases "getUserMedia host")
  case (Inl e1)
  then show ?thesis by (simp add: acquire_def)
next
  case gum: (Inr n)
  show ?thesis
  proof (cases "newAudioContext host")
    case (Inl e2)
    with gum show ?thesis by (simp add: acquire_def new_stream_def Let_def)
  next
    case ctx: (Inr b)
    show ?thesis
    proof (cases "buildGraph host")
      case (Some e3)
      with gum ctx show ?thesis
        by (simp add: acquire_def new_stream_def new_context_def Let_def)
    next
      case None
      with gum ctx assms(2) have "started r" by (simp add: host_succeeds_def)
      with gum ctx None assms(1) show ?thesis
        by (cases "averageVolume (firstFrame host) > SILENCE_THRESHOLD")
           (simp_all add: start_defs)
    qed
  qed
qed

lemma startDictation_success:
  assumes "Idle w" "recognitionRef w = Some r" "\<not> started r" "host_succeeds host"
  shows "\<exists>w'. startDictation host w = Inr w' \<and> Active w' \<and>
    recognitionRef w' = Some (r\<lparr>started := True\<rparr>) \<and>
    (\<forall>t \<in> set (the (streamRef w')). handles w < t) \<and>
    handles w < the (audioContextRef w') \<and>
    handles w < the (animationFrameRef w') \<and>
    (\<forall>h. silenceTimerRef w' = Some h \<longrightarrow> handles w < h)"
  using acquire_success [OF assms] assms(2)
  by (auto simp: startDictation_def startDictation_resume_def truthy_def)

lemma startDictation_split:
  "startDictation host w =
     (if truthy (recognitionRef w) then startDictation_resume host (startDictation_call w)
      else Inr w)"
  by (simp add: startDictation_def startDictation_call_def)

lemma start_example: "startDictation host_granted mounted = Inr active_example"
  using loud_frame_loud
  by (simp add: startDictation_def startDictation_resume_def start_defs mounted_def
      useEffect_def initial_def host_granted_def active_example_def truthy_def quiet_def
      fun_eq_iff)

lemma start_armed_example: "startDictation host_quiet mounted = Inr armed_example"
  using quiet_frame_quiet
  by (simp add: startDictation_def startDictation_resume_def start_defs mounted_def
      useEffect_def initial_def host_quiet_def armed_example_def truthy_def quiet_def
      SILENCE_DURATION_MS_def fun_eq_iff)

text \<open>
  Claim C7. When a start from the idle state fails at any step (the host does not grant
  the stream, the audio context or the graph, or the recognizer's \<^verbatim>\<open>start\<close> throws
  because it is started already), the component alerts the user once and runs
  \<^verbatim>\<open>stopDictation\<close>: the session is idle again and not dictating, no track and no audio
  context that the start acquired is left open, and a later start that the host grants
  gives an active session.
\<close>

theorem acquisition_failure_cleans_up:
  assumes "Idle w" "recognitionRef w = Some r" "\<not> host_succeeds host \<or> started r"
  shows "\<exists>w'. startDictation host w = Inr w' \<and> Idle w' \<and> \<not> isDictating w' \<and>
    alerts w' = alerts w @ [start_error_message] \<and> cleaned w w' \<and>
    (\<forall>host'. host_succeeds host' \<longrightarrow>
       (\<exists>w''. startDictation host' w' = Inr w'' \<and> Active w''))"
proof -
  from acquire_fails [OF assms(2,3)] obtain e w1
    where f: "acquire host (w\<lparr>isDictating := True\<rparr>) = Inl (e, w1)" by blast
  define w' where "w' = after_stop (w1\<lparr>console := console w1 @ [''Error starting dictation:''],
    alerts := alerts w1 @ [start_error_message]\<rparr>)"
  have al: "alerts w1 = alerts w"
    using f by (auto simp: start_defs split: sum.splits option.splits if_splits prod.splits)
  from acquire_failure [OF assms(1) f] have c: "cleaned w w'"
    and a: "alerts w' = alerts w1 @ [start_error_message]"
    by (simp_all add: w'_def)
  have s: "startDictation host w = Inr w'"
    using f assms(2)
    by (simp add: startDictation_def startDictation_resume_def truthy_def
        stopDictation_after_stop w'_def)
  have i: "Idle w'" using c by (simp add: cleaned_def)
  have r: "recognitionRef w' = Some (r\<lparr>started := False\<rparr>)"
    using c assms(2) by (simp add: cleaned_def)
  have "\<exists>w''. startDictation host' w' = Inr w'' \<and> Active w''" if "host_succeeds host'" for host'
    using startDictation_success [OF i r _ that] by auto
  with s i a al c show ?thesis by (auto simp: Idle_def)
qed

theorem acquisition_failure_cleans_up_witness:
  "Idle mounted \<and> \<not> host_succeeds host_denied \<and>
   (\<exists>w'. startDictation host_denied mounted = Inr w' \<and> Idle w' \<and>
      alerts w' = [start_error_message] \<and>
      (\<exists>w''. startDictation host_granted w' = Inr w'' \<and> Active w''))"
proof -
  have i: "Idle mounted"
    by (simp add: Idle_def mounted_def useEffect_def initial_def)
  have r: "recognitionRef mounted =
      Some \<lparr>continuous = True, interimResults = True, lang = ''en-US'', started = False\<rparr>"
    by (simp add: mounted_def useEffect_def initial_def)
  have d: "\<not> host_succeeds host_denied"
    by (simp add: host_succeeds_def host_denied_def)
  have g: "host_succeeds host_granted"
    by (simp add: host_succeeds_def host_granted_def)
  have a: "alerts mounted = []"
    by (simp add: mounted_def useEffect_def initial_def)
  from acquisition_failure_cleans_up [OF i r disjI1 [OF d]] i d g a show ?thesis
    by auto
qed

text \<open>
  Claim C8, amended. From an active session the stop path nulls the stream, audio
  context, silence timer and animation frame handles, and keeps the recognizer handle.
  A later start that the host grants uses that same recognizer, and its tracks, audio
  context, animation frame and silence timer are new: none is one the stopped session
  held.
\<close>

theorem stop_nulls_session_handles:
  assumes "Active w"
  shows "\<exists>w1. stopDictation w = Inr w1 \<and>
    streamRef w1 = None \<and> audioContextRef w1 = None \<and> silenceTimerRef w1 = None \<and>
    animationFrameRef w1 = None \<and> recognitionRef w1 \<noteq> None \<and>
    (\<forall>host. host_succeeds host \<longrightarrow>
       (\<exists>w2. startDictation host w1 = Inr w2 \<and> Active w2 \<and>
          recognitionRef w2 = recognitionRef w \<and>
          set (the (streamRef w2)) \<inter> set (the (streamRef w)) = {} \<and>
          audioContextRef w2 \<noteq> audioContextRef w \<and>
          animationFrameRef w2 \<noteq> animationFrameRef w \<and>
          (silenceTimerRef w2 = None \<or> silenceTimerRef w2 \<noteq> silenceTimerRef w)))"
proof -
  from assms obtain r stream c f where a:
    "isDictating w" "recognitionRef w = Some r" "started r"
    "streamRef w = Some stream" "list_all (given w) stream"
    "audioContextRef w = Some c" "given w c" "contexts w c \<noteq> Some Closed"
    "animationFrameRef w = Some f" "given w f" "animation_frames w = [f]"
    "(silenceTimerRef w = None \<and> timeouts w = []) \<or>
     (\<exists>h d. silenceTimerRef w = Some h \<and> given w h \<and> timeouts w = [(h, d)] \<and>
        d \<le> clock w + SILENCE_DURATION_MS)"
    by (rule ActiveE)
  let ?w1 = "after_stop w"
  have i: "Idle ?w1" using assms by (rule Active_after_stop)
  have r1: "recognitionRef ?w1 = Some (r\<lparr>started := False\<rparr>)"
    using a(2) by (simp add: after_stop_def)
  have h1: "handles ?w1 = handles w" by (simp add: after_stop_def)
  have rr: "r\<lparr>started := True\<rparr> = r" using a(3) by simp
  have fresh: "\<exists>w2. startDictation host ?w1 = Inr w2 \<and> Active w2 \<and>
          recognitionRef w2 = recognitionRef w \<and>
          set (the (streamRef w2)) \<inter> set (the (streamRef w)) = {} \<and>
          audioContextRef w2 \<noteq> audioContextRef w \<and>
          animationFrameRef w2 \<noteq> animationFrameRef w \<and>
          (silenceTimerRef w2 = None \<or> silenceTimerRef w2 \<noteq> silenceTimerRef w)"
    if hs: "host_succeeds host" for host
  proof -
    from startDictation_success [OF i r1 _ hs] obtain w2 where w2:
      "startDictation host ?w1 = Inr w2" "Active w2"
      "recognitionRef w2 = Some (r\<lparr>started := False, started := True\<rparr>)"
      "\<forall>t \<in> set (the (streamRef w2)). handles w < t"
      "handles w < the (audioContextRef w2)"
      "handles w < the (animationFrameRef w2)"
      "\<forall>h. silenceTimerRef w2 = Some h \<longrightarrow> handles w < h"
      by (auto simp: h1)
    have "recognitionRef w2 = recognitionRef w" using w2(3) a(2) rr by simp
    moreover have "set (the (streamRef w2)) \<inter> set (the (streamRef w)) = {}"
      using w2(4) a(4,5) by (fastforce simp: list_all_iff given_def)
    moreover have "audioContextRef w2 \<noteq> audioContextRef w"
      using w2(5) a(6,7) by (auto simp: given_def)
    moreover have "animationFrameRef w2 \<noteq> animationFrameRef w"
      using w2(6) a(9,10) by (auto simp: given_def)
    moreover have "silenceTimerRef w2 = None \<or> silenceTimerRef w2 \<noteq> silenceTimerRef w"
      using w2(7) a(12) by (cases "silenceTimerRef w2") (auto simp: given_def)
    ultimately show ?thesis using w2(1,2) by blast
  qed
  from i r1 fresh show ?thesis
    by (simp add: stopDictation_after_stop Idle_def)
qed

theorem stop_nulls_session_handles_witness:
  "Active active_example \<and> host_succeeds host_granted \<and>
   (\<exists>w1. stopDictation active_example = Inr w1 \<and> streamRef w1 = None \<and>
      audioContextRef w1 = None \<and> recognitionRef w1 \<noteq> None \<and>
      (\<exists>w2. startDictation host_granted w1 = Inr w2 \<and> Active w2 \<and>
         recognitionRef w2 = recognitionRef active_example \<and>
         audioContextRef w2 \<noteq> audioContextRef active_example))"
proof -
  have a: "Active active_example"
    by (simp add: Active_def active_example_def given_def)
  have g: "host_succeeds host_granted"
    by (simp add: host_succeeds_def host_granted_def)
  from stop_nulls_session_handles [OF a] a g show ?thesis
    by blast
qed

text \<open>
  Claim C10. Called while the recognizer handle is \<^verbatim>\<open>null\<close>, \<^verbatim>\<open>startDictation\<close> returns
  at once and changes nothing: the world after it is the world before it, whatever the
  host would have answered.
\<close>

theorem startDictation_without_recognizer:
  "recognitionRef w = None \<Longrightarrow> startDictation host w = Inr w"
  by (simp add: startDictation_def truthy_def)

theorem startDictation_without_recognizer_witness:
  "recognitionRef initial = None \<and> startDictation host_granted initial = Inr initial"
proof -
  have n: "recognitionRef initial = None" by (simp add: initial_def)
  from startDictation_without_recognizer [OF n] n show ?thesis by simp
qed

subsection \<open>Ticks\<close>

text \<open>
  For a frame of the analyser's size, the test of the average volume against the
  threshold is a test of the sum of the deviations against 640.
\<close>

lemma quiet_frequencyBinCount:
  assumes "length d = FFT_SIZE div 2"
  shows "quiet d \<longleftrightarrow> fold (\<lambda>b sum. sum + \<bar>int (unat b) - 128\<bar>) d 0 \<le> 640"
proof -
  have "length d = 128" using assms by (simp add: FFT_SIZE_def)
  then show ?thesis
    by (simp add: quiet_def averageVolume_def SILENCE_THRESHOLD_def not_less
        divide_le_eq)
qed

lemma tick_Idle: "Idle w \<Longrightarrow> tick t w = Inr (w\<lparr>clock := clock w + fst t\<rparr>)"
  by (simp add: tick_def Idle_def Let_def)

lemma tick_due:
  assumes "Active w" "timeouts w = [(h, d)]" "d \<le> clock w + fst t"
  shows "\<exists>w'. tick t w = Inr w' \<and> Idle w' \<and> clock w' = clock w + fst t"
proof -
  from assms(1) obtain r stream c f where a:
    "recognitionRef w = Some r"
    "streamRef w = Some stream" 
    "audioContextRef w = Some c" "contexts w c \<noteq> Some Closed"
    "animationFrameRef w = Some f" "given w f" "animation_frames w = [f]"
    "(silenceTimerRef w = None \<and> timeouts w = []) \<or>
     (\<exists>h d. silenceTimerRef w = Some h \<and> given w h \<and> timeouts w = [(h, d)] \<and>
        d \<le> clock w + SILENCE_DURATION_MS)"
    by (rule ActiveE)
  with assms(2) have s: "silenceTimerRef w = Some h" "given w h" by auto
  show ?thesis
    using assms(2,3) a(1-7) s
    by (simp add: tick_def Let_def run_timeout_def stopDictation_after_stop after_stop_def
        truthy_number_def handle_of_def given_def Idle_def)
qed


lemmas tick_defs = tick_def Let_def run_timeout_def run_frame_def monitorAudio_def
  setTimeout_def clearTimeout_def requestAnimationFrame_def truthy_number_def handle_of_def
  given_def

lemma tick_quiet_pending:
  assumes "Active w" "timeouts w = [(h, d)]" "clock w + fst t < d" "quiet (snd t)"
  shows "\<exists>w'. tick t w = Inr w' \<and> Active w' \<and> timeouts w' = [(h, d)] \<and>
    clock w' = clock w + fst t"
proof -
  from assms(1) obtain r stream c f where a:
    "isDictating w" "recognitionRef w = Some r" "started r"
    "streamRef w = Some stream" "list_all (given w) stream"
    "audioContextRef w = Some c" "given w c" "contexts w c \<noteq> Some Closed"
    "animationFrameRef w = Some f" "given w f" "animation_frames w = [f]"
    "(silenceTimerRef w = None \<and> timeouts w = []) \<or>
     (\<exists>h d. silenceTimerRef w = Some h \<and> given w h \<and> timeouts w = [(h, d)] \<and>
        d \<le> clock w + SILENCE_DURATION_MS)"
    by (rule ActiveE)
  with assms(2) have s: "silenceTimerRef w = Some h" "given w h"
    "d \<le> clock w + SILENCE_DURATION_MS" by auto
  have l: "\<And>w'. handles w \<le> handles w' \<Longrightarrow> list_all (given w') stream"
    using a(5) by (auto simp: list_all_iff given_def)
  show ?thesis
    using assms(2-4) a(1-4,6-11) s l
    by (simp add: tick_defs quiet_def Active_def)
qed

lemma tick_quiet_none:
  assumes "Active w" "timeouts w = []" "quiet (snd t)"
  shows "\<exists>w' h. tick t w = Inr w' \<and> Active w' \<and>
    timeouts w' = [(h, clock w + fst t + SILENCE_DURATION_MS)] \<and>
    clock w' = clock w + fst t"
proof -
  from assms(1) obtain r stream c f where a:
    "isDictating w" "recognitionRef w = Some r" "started r"
    "streamRef w = Some stream" "list_all (given w) stream"
    "audioContextRef w = Some c" "given w c" "contexts w c \<noteq> Some Closed"
    "animationFrameRef w = Some f" "given w f" "animation_frames w = [f]"
    "(silenceTimerRef w = None \<and> timeouts w = []) \<or>
     (\<exists>h d. silenceTimerRef w = Some h \<and> given w h \<and> timeouts w = [(h, d)] \<and>
        d \<le> clock w + SILENCE_DURATION_MS)"
    by (rule ActiveE)
  with assms(2) have s: "silenceTimerRef w = None" by auto
  have l: "\<And>w'. handles w \<le> handles w' \<Longrightarrow> list_all (given w') stream"
    using a(5) by (auto simp: list_all_iff given_def)
  show ?thesis
    using assms(2-3) a(1-4,6-11) s l
    by (simp add: tick_defs quiet_def Active_def)
qed

lemma tick_loud:
  assumes "Active w" "\<forall>x \<in> set (timeouts w). clock w + fst t < snd x" "\<not> quiet (snd t)"
  shows "\<exists>w'. tick t w = Inr w' \<and> Active w' \<and> timeouts w' = [] \<and>
    clock w' = clock w + fst t"
proof -
  from assms(1) obtain r stream c f where a:
    "isDictating w" "recognitionRef w = Some r" "started r"
    "streamRef w = Some stream" "list_all (given w) stream"
    "audioContextRef w = Some c" "given w c" "contexts w c \<noteq> Some Closed"
    "animationFrameRef w = Some f" "given w f" "animation_frames w = [f]"
    "(silenceTimerRef w = None \<and> timeouts w = []) \<or>
     (\<exists>h d. silenceTimerRef w = Some h \<and> given w h \<and> timeouts w = [(h, d)] \<and>
        d \<le> clock w + SILENCE_DURATION_MS)"
    by (rule ActiveE)
  have l: "\<And>w'. handles w \<le> handles w' \<Longrightarrow> list_all (given w') stream"
    using a(5) by (auto simp: list_all_iff given_def)
  from a(12) show ?thesis
  proof
    assume "silenceTimerRef w = None \<and> timeouts w = []"
    then show ?thesis
      using assms(3) a(1-4,6-11) l
      by (simp add: tick_defs quiet_def Active_def)
  next
    assume "\<exists>h d. silenceTimerRef w = Some h \<and> given w h \<and> timeouts w = [(h, d)] \<and>
        d \<le> clock w + SILENCE_DURATION_MS"
    then obtain h d where "silenceTimerRef w = Some h" "given w h" "timeouts w = [(h, d)]"
      by blast
    then show ?thesis
      using assms(2,3) a(1-4,6-11) l
      by (simp add: tick_defs quiet_def Active_def)
  qed
qed

subsection \<open>Runs of ticks\<close>

lemma trace_not_Nil [simp]: "trace ticks w \<noteq> []"
  by (cases ticks) simp_all

lemma hd_trace [simp]: "hd (trace ticks w) = w"
  by (cases ticks) simp_all

lemma stops_Cons:
  "ws \<noteq> [] \<Longrightarrow>
   stops (a # ws) = (if isDictating a \<and> \<not> isDictating (hd ws) then 1 else 0) + stops ws"
  by (cases ws) simp_all

lemma trace_step:
  "tick t w = Inr w' \<Longrightarrow> trace (t # ts) w = w # trace ts w'"
  by simp

lemma stops_step:
  "tick t w = Inr w' \<Longrightarrow>
   stops (trace (t # ts) w) =
     (if isDictating w \<and> \<not> isDictating w' then 1 else 0) + stops (trace ts w')"
  by (simp add: stops_Cons)

lemma Idle_clock [simp]: "Idle (w\<lparr>clock := c\<rparr>) = Idle w"
  by (simp add: Idle_def)

lemma run_Idle:
  "Idle w \<Longrightarrow>
   run ticks w = Inr (w\<lparr>clock := clock w + sum_list (map fst ticks)\<rparr>) \<and>
   stops (trace ticks w) = 0 \<and> length (trace ticks w) = Suc (length ticks) \<and>
   list_all Idle (trace ticks w)"
proof (induction ticks arbitrary: w)
  case Nil
  then show ?case by simp
next
  case (Cons t ts)
  let ?w' = "w\<lparr>clock := clock w + fst t\<rparr>"
  have t: "tick t w = Inr ?w'" using Cons.prems by (rule tick_Idle)
  have i: "Idle ?w'" using Cons.prems by simp
  have n: "\<not> isDictating w" using Cons.prems by (simp add: Idle_def)
  from Cons.IH [OF i] t n Cons.prems show ?case
    by (simp add: stops_Cons add.assoc)
qed

lemma run_pending:
  assumes "Active w" "timeouts w = [(h, d)]" "list_all (\<lambda>t. quiet (snd t)) ticks"
    "d \<le> clock w + sum_list (map fst ticks)" "ticks \<noteq> []"
  shows "\<exists>w'. run ticks w = Inr w' \<and> Idle w' \<and> stops (trace ticks w) = 1 \<and>
    length (trace ticks w) = Suc (length ticks)"
  using assms
proof (induction ticks arbitrary: w)
  case Nil
  then show ?case by simp
next
  case (Cons t ts)
  have dict: "isDictating w" using Cons.prems(1) by (simp add: Active_def)
  show ?case
  proof (cases "d \<le> clock w + fst t")
    case True
    from tick_due [OF Cons.prems(1,2) True] obtain w1
      where w1: "tick t w = Inr w1" "Idle w1" by blast
    then have n: "\<not> isDictating w1" by (simp add: Idle_def)
    from run_Idle [OF w1(2), of ts] w1 dict n show ?thesis
      by (simp add: stops_Cons)
  next
    case False
    then have lt: "clock w + fst t < d" by simp
    have q: "quiet (snd t)" using Cons.prems(3) by simp
    from tick_quiet_pending [OF Cons.prems(1,2) lt q] obtain w1
      where w1: "tick t w = Inr w1" "Active w1" "timeouts w1 = [(h, d)]"
        "clock w1 = clock w + fst t" by blast
    have d1: "isDictating w1" using w1(2) by (simp add: Active_def)
    have le: "d \<le> clock w1 + sum_list (map fst ts)" using Cons.prems(4) w1(4) by simp
    with lt w1(4) have ne: "ts \<noteq> []" by auto
    have qs: "list_all (\<lambda>t. quiet (snd t)) ts" using Cons.prems(3) by simp
    from Cons.IH [OF w1(2,3) qs le ne] w1(1) dict d1 show ?thesis
      by (simp add: stops_Cons)
  qed
qed

text \<open>
  Claim C5. From an active session, when every frame of a run of ticks is at or below
  the threshold and the ticks after the first span at least 2000 ms, the run ends in
  the idle state, the session goes from dictating to not dictating exactly once, and no
  animation frame is left requested: later ticks only advance the clock.
\<close>

theorem silence_triggers_stop:
  assumes "Active w" "ticks \<noteq> []" "list_all (\<lambda>t. quiet (snd t)) ticks"
    "SILENCE_DURATION_MS \<le> sum_list (map fst (tl ticks))"
  shows "\<exists>w'. run ticks w = Inr w' \<and> Idle w' \<and> stops (trace ticks w) = 1 \<and>
    length (trace ticks w) = Suc (length ticks) \<and>
    (\<forall>later. run later w' = Inr (w'\<lparr>clock := clock w' + sum_list (map fst later)\<rparr>) \<and>
       stops (trace later w') = 0)"
proof -
  from assms(2) obtain t ts where ticks: "ticks = t # ts" by (cases ticks) auto
  have ts: "SILENCE_DURATION_MS \<le> sum_list (map fst ts)" using assms(4) ticks by simp
  have main: "\<exists>w'. run ticks w = Inr w' \<and> Idle w' \<and> stops (trace ticks w) = 1 \<and>
    length (trace ticks w) = Suc (length ticks)"
  proof (cases "timeouts w")
    case Nil
    have q: "quiet (snd t)" using assms(3) ticks by simp
    from tick_quiet_none [OF assms(1) Nil q] obtain w1 h
      where w1: "tick t w = Inr w1" "Active w1"
        "timeouts w1 = [(h, clock w + fst t + SILENCE_DURATION_MS)]"
        "clock w1 = clock w + fst t" by blast
    have ne: "ts \<noteq> []" using ts by (auto simp: SILENCE_DURATION_MS_def)
    have qs: "list_all (\<lambda>t. quiet (snd t)) ts" using assms(3) ticks by simp
    have le: "clock w + fst t + SILENCE_DURATION_MS \<le> clock w1 + sum_list (map fst ts)"
      using ts w1(4) by simp
    have dict: "isDictating w" "isDictating w1" using assms(1) w1(2) by (simp_all add: Active_def)
    from run_pending [OF w1(2,3) qs le ne] w1(1) dict show ?thesis
      by (simp add: ticks stops_Cons)
  next
    case (Cons x xs)
    from assms(1) obtain h d where hd: "timeouts w = [(h, d)]"
      "d \<le> clock w + SILENCE_DURATION_MS"
      by (rule ActiveE) (use Cons in auto)
    have "d \<le> clock w + sum_list (map fst ticks)" using hd(2) ts ticks by simp
    from run_pending [OF assms(1) hd(1) assms(3) this assms(2)] show ?thesis .
  qed
  then obtain w' where w': "run ticks w = Inr w'" "Idle w'" "stops (trace ticks w) = 1"
    "length (trace ticks w) = Suc (length ticks)" by blast
  have "\<forall>later. run later w' = Inr (w'\<lparr>clock := clock w' + sum_list (map fst later)\<rparr>) \<and>
       stops (trace later w') = 0"
    using run_Idle [OF w'(2)] by blast
  with w' show ?thesis by blast
qed

theorem silence_triggers_stop_witness:
  "Active active_example \<and> quiet quiet_frame \<and>
   (\<exists>w'. run [(1000, quiet_frame), (1000, quiet_frame), (1000, quiet_frame)] active_example = Inr w' \<and>
      Idle w' \<and>
      stops (trace [(1000, quiet_frame), (1000, quiet_frame), (1000, quiet_frame)] active_example) = 1)"
proof -
  have a: "Active active_example"
    by (simp add: Active_def active_example_def given_def)
  have q: "quiet quiet_frame"
    by (simp add: quiet_def quiet_frame_def averageVolume_def SILENCE_THRESHOLD_def)
  have l: "list_all (\<lambda>t. quiet (snd t)) [(1000, quiet_frame), (1000, quiet_frame), (1000, quiet_frame)]"
    using q by simp
  have s: "SILENCE_DURATION_MS \<le>
      sum_list (map fst (tl [(1000::nat, quiet_frame), (1000, quiet_frame), (1000, quiet_frame)]))"
    by (simp add: SILENCE_DURATION_MS_def)
  from silence_triggers_stop [OF a _ l s] a q show ?thesis by auto
qed

text \<open>
  Claim C6. From an active session, when the frames of a run of ticks 1000 ms apart are
  in turn above the threshold and not (and the timeout pending at the beginning, if
  any, is due after the first tick, which is then a loud one), the session never stops:
  every world of the run is active, and after every frame above the threshold no
  timeout is pending.
\<close>

theorem speech_resets_timer:
  assumes "Active w" "alternates loud ticks"
    "timeouts w = [] \<or> (loud \<and> list_all (\<lambda>x. clock w + 1000 < snd x) (timeouts w))"
  shows "\<exists>w'. run ticks w = Inr w' \<and> Active w' \<and> list_all Active (trace ticks w) \<and>
    stops (trace ticks w) = 0 \<and> length (trace ticks w) = Suc (length ticks) \<and>
    (\<forall>i < length ticks. \<not> quiet (snd (ticks ! i)) \<longrightarrow> timeouts (trace ticks w ! Suc i) = [])"
  using assms
proof (induction ticks arbitrary: w loud)
  case Nil
  then show ?case by simp
next
  case (Cons t ts)
  have t: "fst t = 1000" "(\<not> quiet (snd t)) = loud" "alternates (\<not> loud) ts"
    using Cons.prems(2) by simp_all
  have dict: "isDictating w" using Cons.prems(1) by (simp add: Active_def)
  show ?case
  proof (cases loud)
    case True
    have nd: "\<forall>x \<in> set (timeouts w). clock w + fst t < snd x"
      using Cons.prems(3) t(1) by (auto simp: list_all_iff)
    have l: "\<not> quiet (snd t)" using t(2) True by simp
    from tick_loud [OF Cons.prems(1) nd l] obtain w1
      where w1: "tick t w = Inr w1" "Active w1" "timeouts w1 = []" by blast
    have d1: "isDictating w1" using w1(2) by (simp add: Active_def)
    have h: "timeouts w1 = [] \<or> (\<not> loud \<and> list_all (\<lambda>x. clock w1 + 1000 < snd x) (timeouts w1))"
      using w1(3) by simp
    from Cons.IH [OF w1(2) t(3) h] obtain w' where w': "run ts w1 = Inr w'" "Active w'"
      "list_all Active (trace ts w1)" "stops (trace ts w1) = 0"
      "length (trace ts w1) = Suc (length ts)"
      "\<forall>i < length ts. \<not> quiet (snd (ts ! i)) \<longrightarrow> timeouts (trace ts w1 ! Suc i) = []"
      by blast
    have tr: "trace (t # ts) w = w # trace ts w1" using w1(1) by simp
    have "\<forall>i < length (t # ts). \<not> quiet (snd ((t # ts) ! i)) \<longrightarrow>
        timeouts (trace (t # ts) w ! Suc i) = []"
    proof (intro allI impI)
      fix i assume i: "i < length (t # ts)" "\<not> quiet (snd ((t # ts) ! i))"
      show "timeouts (trace (t # ts) w ! Suc i) = []"
      proof (cases i)
        case 0
        have "trace ts w1 ! 0 = w1" by (cases ts) simp_all
        then show ?thesis using 0 w1(3) tr by simp
      next
        case (Suc j)
        then show ?thesis using i w'(6) tr by simp
      qed
    qed
    with w' w1 dict d1 Cons.prems(1) tr show ?thesis
      by (simp add: stops_Cons del: trace.simps)
  next
    case False
    have em: "timeouts w = []" using Cons.prems(3) False by simp
    have q: "quiet (snd t)" using t(2) False by simp
    from tick_quiet_none [OF Cons.prems(1) em q] obtain w1 h
      where w1: "tick t w = Inr w1" "Active w1"
        "timeouts w1 = [(h, clock w + fst t + SILENCE_DURATION_MS)]"
        "clock w1 = clock w + fst t" by blast
    have d1: "isDictating w1" using w1(2) by (simp add: Active_def)
    have h: "timeouts w1 = [] \<or> (\<not> loud \<and> list_all (\<lambda>x. clock w1 + 1000 < snd x) (timeouts w1))"
      using w1(3,4) False by (simp add: SILENCE_DURATION_MS_def)
    from Cons.IH [OF w1(2) t(3) h] obtain w' where w': "run ts w1 = Inr w'" "Active w'"
      "list_all Active (trace ts w1)" "stops (trace ts w1) = 0"
      "length (trace ts w1) = Suc (length ts)"
      "\<forall>i < length ts. \<not> quiet (snd (ts ! i)) \<longrightarrow> timeouts (trace ts w1 ! Suc i) = []"
      by blast
    have tr: "trace (t # ts) w = w # trace ts w1" using w1(1) by simp
    have "\<forall>i < length (t # ts). \<not> quiet (snd ((t # ts) ! i)) \<longrightarrow>
        timeouts (trace (t # ts) w ! Suc i) = []"
    proof (intro allI impI)
      fix i assume i: "i < length (t # ts)" "\<not> quiet (snd ((t # ts) ! i))"
      show "timeouts (trace (t # ts) w ! Suc i) = []"
      proof (cases i)
        case 0
        then show ?thesis using i q by simp
      next
        case (Suc j)
        then show ?thesis using i w'(6) tr by simp
      qed
    qed
    with w' w1 dict d1 Cons.prems(1) tr show ?thesis
      by (simp add: stops_Cons del: trace.simps)
  qed
qed

theorem speech_resets_timer_witness:
  "Active armed_example \<and>
   list_all (\<lambda>x. clock armed_example + 1000 < snd x) (timeouts armed_example) \<and>
   alternates True [(1000, loud_frame), (1000, quiet_frame), (1000, loud_frame)] \<and>
   (\<exists>w'. run [(1000, loud_frame), (1000, quiet_frame), (1000, loud_frame)] armed_example = Inr w' \<and>
      Active w' \<and>
      stops (trace [(1000, loud_frame), (1000, quiet_frame), (1000, loud_frame)] armed_example) = 0)"
proof -
  have a: "Active armed_example"
    by (simp add: Active_def armed_example_def given_def SILENCE_DURATION_MS_def)
  have t: "list_all (\<lambda>x. clock armed_example + 1000 < snd x) (timeouts armed_example)"
    by (simp add: armed_example_def)
  have l: "alternates True [(1000, loud_frame), (1000, quiet_frame), (1000, loud_frame)]"
    using quiet_frame_quiet loud_frame_loud by simp
  from speech_resets_timer [OF a l disjI2 [OF conjI [OF TrueI t]]] a t l show ?thesis by auto
qed

text \<open>
  The session does not stop either when the signal that alternates every 1000 ms is
  sampled more often: a timeout armed in a quiet window is due after the end of the
  loud window that follows, and a tick falls in that window.
\<close>

lemma window_bounds:
  "c div 1000 * 1000 \<le> (c::nat)" "(c::nat) < c div 1000 * 1000 + 1000"
proof -
  have "c = c div 1000 * 1000 + c mod 1000" by simp
  moreover have "c mod 1000 < 1000" by simp
  ultimately show "c div 1000 * 1000 \<le> c" "c < c div 1000 * 1000 + 1000"
    by linarith+
qed

lemma same_window:
  assumes "\<not> loud_at phase c" "\<not> loud_at phase (c + d)" "d \<le> 1000"
  shows "(c + d) div 1000 = c div 1000"
proof -
  have lo: "c div 1000 \<le> (c + d) div 1000"
    by (rule div_le_mono) simp
  have "c + d < (c div 1000 + 2) * 1000"
    using window_bounds(2) [of c] assms(3) by simp
  then have hi: "(c + d) div 1000 < c div 1000 + 2"
    by (simp add: div_less_iff_less_mult)
  have "even ((c + d) div 1000) = even (c div 1000)"
    using assms(1,2) by (auto simp: loud_at_def)
  show ?thesis
  proof (rule ccontr)
    assume "(c + d) div 1000 \<noteq> c div 1000"
    with lo hi have "(c + d) div 1000 = Suc (c div 1000)" by linarith
    with \<open>even ((c + d) div 1000) = even (c div 1000)\<close> show False by simp
  qed
qed

lemma run_follows_wave:
  assumes "Active w" "follows_wave phase (clock w) ticks"
    "timeouts w = [] \<or>
     (\<not> loud_at phase (clock w) \<and>
      list_all (\<lambda>x. clock w div 1000 * 1000 + 2000 \<le> snd x) (timeouts w))"
  shows "\<exists>w'. run ticks w = Inr w' \<and> Active w' \<and> list_all Active (trace ticks w) \<and>
    stops (trace ticks w) = 0 \<and> length (trace ticks w) = Suc (length ticks)"
  using assms
proof (induction ticks arbitrary: w)
  case Nil
  then show ?case by simp
next
  case (Cons t ts)
  have t: "fst t \<le> 1000" "(\<not> quiet (snd t)) = loud_at phase (clock w + fst t)"
    "follows_wave phase (clock w + fst t) ts"
    using Cons.prems(2) by simp_all
  have dict: "isDictating w" using Cons.prems(1) by (simp add: Active_def)
  have nd: "\<forall>x \<in> set (timeouts w). clock w + fst t < snd x"
  proof
    fix x assume x: "x \<in> set (timeouts w)"
    with Cons.prems(3) have "clock w div 1000 * 1000 + 2000 \<le> snd x"
      by (auto simp: list_all_iff)
    moreover have "clock w < clock w div 1000 * 1000 + 1000" by (rule window_bounds)
    ultimately show "clock w + fst t < snd x" using t(1) by linarith
  qed
  show ?case
  proof (cases "quiet (snd t)")
    case False
    from tick_loud [OF Cons.prems(1) nd False] obtain w1
      where w1: "tick t w = Inr w1" "Active w1" "timeouts w1 = []"
        "clock w1 = clock w + fst t" by blast
    have d1: "isDictating w1" using w1(2) by (simp add: Active_def)
    have f: "follows_wave phase (clock w1) ts" using t(3) w1(4) by simp
    from Cons.IH [OF w1(2) f] w1(3) obtain w' where "run ts w1 = Inr w'" "Active w'"
      "list_all Active (trace ts w1)" "stops (trace ts w1) = 0"
      "length (trace ts w1) = Suc (length ts)"
      by auto
    with w1 dict d1 Cons.prems(1) show ?thesis
      by (simp add: stops_Cons)
  next
    case True
    then have nl: "\<not> loud_at phase (clock w + fst t)" using t(2) by simp
    show ?thesis
    proof (cases "timeouts w")
      case Nil
      from tick_quiet_none [OF Cons.prems(1) Nil True] obtain w1 h
        where w1: "tick t w = Inr w1" "Active w1"
          "timeouts w1 = [(h, clock w + fst t + SILENCE_DURATION_MS)]"
          "clock w1 = clock w + fst t" by blast
      have d1: "isDictating w1" using w1(2) by (simp add: Active_def)
      have f: "follows_wave phase (clock w1) ts" using t(3) w1(4) by simp
      have "clock w1 div 1000 * 1000 \<le> clock w1" by (rule window_bounds)
      then have c: "timeouts w1 = [] \<or>
         (\<not> loud_at phase (clock w1) \<and>
          list_all (\<lambda>x. clock w1 div 1000 * 1000 + 2000 \<le> snd x) (timeouts w1))"
        using w1(3,4) nl by (simp add: SILENCE_DURATION_MS_def)
      from Cons.IH [OF w1(2) f c] obtain w' where "run ts w1 = Inr w'" "Active w'"
        "list_all Active (trace ts w1)" "stops (trace ts w1) = 0"
        "length (trace ts w1) = Suc (length ts)"
        by auto
      with w1 dict d1 Cons.prems(1) show ?thesis
        by (simp add: stops_Cons)
    next
      case (Cons x xs)
      from Cons.prems(1) obtain h d where hd: "timeouts w = [(h, d)]"
        by (rule ActiveE) (use Cons in auto)
      with Cons.prems(3) have q0: "\<not> loud_at phase (clock w)"
        and dl: "clock w div 1000 * 1000 + 2000 \<le> d" by auto
      have lt: "clock w + fst t < d" using nd hd by simp
      from tick_quiet_pending [OF Cons.prems(1) hd lt True] obtain w1
        where w1: "tick t w = Inr w1" "Active w1" "timeouts w1 = [(h, d)]"
          "clock w1 = clock w + fst t" by blast
      have d1: "isDictating w1" using w1(2) by (simp add: Active_def)
      have f: "follows_wave phase (clock w1) ts" using t(3) w1(4) by simp
      have "clock w1 div 1000 = clock w div 1000"
        using same_window [OF q0 nl t(1)] w1(4) by simp
      then have c: "timeouts w1 = [] \<or>
         (\<not> loud_at phase (clock w1) \<and>
          list_all (\<lambda>x. clock w1 div 1000 * 1000 + 2000 \<le> snd x) (timeouts w1))"
        using w1(3,4) nl dl by simp
      from Cons.IH [OF w1(2) f c] obtain w' where "run ts w1 = Inr w'" "Active w'"
        "list_all Active (trace ts w1)" "stops (trace ts w1) = 0"
        "length (trace ts w1) = Suc (length ts)"
        by auto
      with w1 dict d1 Cons.prems(1) show ?thesis
        by (simp add: stops_Cons)
    qed
  qed
qed


subsection \<open>The pending timeout\<close>

lemma timer_inv_cases:
  "timer_inv w \<longleftrightarrow>
     timeouts w = [] \<or> (\<exists>h d. timeouts w = [(h, d)] \<and> 0 < h \<and> silenceTimerRef w = Some h)"
  by (auto simp: timer_inv_def split: list.splits)

lemma timer_inv_length: "timer_inv w \<Longrightarrow> length (timeouts w) \<le> 1"
  by (auto simp: timer_inv_cases)

lemma timeouts_monitorAudio:
  assumes "timer_inv w"
  shows "timer_inv (monitorAudio d w) \<and>
    (\<not> quiet d \<longrightarrow> timeouts (monitorAudio d w) = []) \<and>
    (timeouts w \<noteq> [] \<longrightarrow> timeouts (monitorAudio d w) = timeouts w \<or> timeouts (monitorAudio d w) = [])"
  using assms
  by (cases "silenceTimerRef w")
     (auto simp: timer_inv_cases monitorAudio_def quiet_def setTimeout_def clearTimeout_def
        requestAnimationFrame_def truthy_number_def handle_of_def Let_def)

lemma timer_inv_after_stop: "timer_inv w \<Longrightarrow> timer_inv (after_stop w)"
  by (auto simp: timer_inv_cases after_stop_def truthy_number_def handle_of_def)

lemma timer_inv_run_timeout:
  "timer_inv w \<Longrightarrow> \<exists>w'. run_timeout t w = Inr w' \<and> timer_inv w'"
proof -
  assume a: "timer_inv w"
  then have "timer_inv (w\<lparr>timeouts := removeAll t (timeouts w)\<rparr>)"
    by (cases "t \<in> set (timeouts w)") (auto simp: timer_inv_cases)
  then have "timer_inv (after_stop (w\<lparr>timeouts := removeAll t (timeouts w)\<rparr>))"
    by (rule timer_inv_after_stop)
  with a show ?thesis
    by (simp add: run_timeout_def stopDictation_after_stop)
qed

lemma timer_inv_run_timeouts:
  "timer_inv w \<Longrightarrow> \<exists>w'. run_timeouts ts w = Inr w' \<and> timer_inv w'"
proof (induction ts arbitrary: w)
  case Nil
  then show ?case by simp
next
  case (Cons t ts)
  from timer_inv_run_timeout [OF Cons.prems, of t] obtain w1
    where "run_timeout t w = Inr w1" "timer_inv w1" by blast
  with Cons.IH [of w1] show ?case by simp
qed

lemma timer_inv_run_frame: "timer_inv w \<Longrightarrow> timer_inv (run_frame d f w)"
proof -
  assume a: "timer_inv w"
  then have "timer_inv (w\<lparr>animation_frames := removeAll f (animation_frames w)\<rparr>)"
    by (simp add: timer_inv_cases)
  then show ?thesis using a timeouts_monitorAudio by (simp add: run_frame_def)
qed

lemma timer_inv_fold_run_frame: "timer_inv w \<Longrightarrow> timer_inv (fold (run_frame d) fs w)"
  by (induction fs arbitrary: w) (simp_all add: timer_inv_run_frame)

lemma timer_inv_tick: "timer_inv w \<Longrightarrow> \<exists>w'. tick t w = Inr w' \<and> timer_inv w'"
proof -
  assume a: "timer_inv w"
  then have "timer_inv (w\<lparr>clock := clock w + fst t\<rparr>)"
    by (simp add: timer_inv_cases)
  from timer_inv_run_timeouts [OF this] obtain w2
    where "run_timeouts (timeouts w) (w\<lparr>clock := clock w + fst t\<rparr>) = Inr w2" "timer_inv w2"
    by blast
  then show ?thesis
    by (simp add: tick_def Let_def timer_inv_fold_run_frame)
qed

lemma timer_inv_trace:
  "timer_inv w \<Longrightarrow>
   list_all timer_inv (trace ticks w) \<and> length (trace ticks w) = Suc (length ticks)"
proof (induction ticks arbitrary: w)
  case Nil
  then show ?case by simp
next
  case (Cons t ts)
  from timer_inv_tick [OF Cons.prems, of t] obtain w1
    where "tick t w = Inr w1" "timer_inv w1" by blast
  with Cons.IH [of w1] Cons.prems show ?case by simp
qed

lemma Active_timer_inv: "Active w \<Longrightarrow> timer_inv w"
  by (erule ActiveE) (auto simp: timer_inv_cases given_def)

lemma Idle_timer_inv: "Idle w \<Longrightarrow> timer_inv w"
  by (simp add: timer_inv_cases Idle_def)

lemma timer_inv_acquire:
  assumes "timer_inv w"
  shows "case acquire host w of Inl (e, w1) \<Rightarrow> timer_inv w1 | Inr w' \<Rightarrow> timer_inv w'"
proof (cases "getUserMedia host")
  case (Inl e1)
  with assms show ?thesis by (simp add: acquire_def)
next
  case gum: (Inr n)
  define w2 where "w2 = (snd (new_stream n w))\<lparr>streamRef := Some (fst (new_stream n w))\<rparr>"
  have i2: "timer_inv w2"
    using assms by (simp add: w2_def new_stream_def Let_def timer_inv_cases)
  show ?thesis
  proof (cases "newAudioContext host")
    case (Inl e2)
    with gum i2 show ?thesis
      by (simp add: acquire_def w2_def split_beta Let_def)
  next
    case ctx: (Inr b)
    define w4 where "w4 = (snd (new_context b w2))\<lparr>audioContextRef := Some (fst (new_context b w2))\<rparr>"
    have i4: "timer_inv w4"
      using i2 by (simp add: w4_def new_context_def Let_def timer_inv_cases)
    show ?thesis
    proof (cases "buildGraph host")
      case (Some e3)
      with gum ctx i4 show ?thesis
        by (simp add: acquire_def w2_def w4_def split_beta Let_def)
    next
      case None
      have i5: "timer_inv (monitorAudio (firstFrame host) w4)"
        using timeouts_monitorAudio [OF i4] by simp
      then have i6: "timer_inv ((monitorAudio (firstFrame host) w4)\<lparr>recognitionRef := r'\<rparr>)" for r'
        by (simp add: timer_inv_cases)
      from gum ctx None i5 i6 show ?thesis
        by (simp add: acquire_def w2_def w4_def split_beta Let_def split: sum.splits)
    qed
  qed
qed

lemma timer_inv_startDictation_resume:
  assumes "timer_inv w"
  shows "\<exists>w'. startDictation_resume host w = Inr w' \<and> timer_inv w'"
proof (cases "acquire host w")
  case (Inr w')
  with timer_inv_acquire [OF assms, of host] show ?thesis
    by (simp add: startDictation_resume_def)
next
  case (Inl p)
  obtain e w1 where p: "p = (e, w1)" by (cases p)
  with Inl timer_inv_acquire [OF assms, of host] have "timer_inv w1" by simp
  then have "timer_inv (w1\<lparr>console := c, alerts := a\<rparr>)" for c a
    by (simp add: timer_inv_cases)
  then have "timer_inv (after_stop (w1\<lparr>console := c, alerts := a\<rparr>))" for c a
    by (rule timer_inv_after_stop)
  with Inl p show ?thesis
    by (simp add: startDictation_resume_def stopDictation_after_stop)
qed

lemma timer_inv_step:
  assumes "timer_inv w"
  shows "\<exists>w'. step e w = Inr w' \<and> timer_inv w'"
proof (cases e)
  case (Mount b)
  with assms show ?thesis by (simp add: useEffect_def timer_inv_cases)
next
  case (Toggle host)
  have "timer_inv (w\<lparr>isDictating := True\<rparr>)" using assms by (simp add: timer_inv_cases)
  from timer_inv_startDictation_resume [OF this, of host] assms Toggle show ?thesis
    by (simp add: toggleDictation_def startDictation_def stopDictation_after_stop
        timer_inv_after_stop)
next
  case StartCalled
  with assms show ?thesis by (simp add: startDictation_call_def timer_inv_cases)
next
  case (StartResumed host)
  with timer_inv_startDictation_resume [OF assms, of host] show ?thesis by simp
next
  case Stop
  with assms show ?thesis by (simp add: stopDictation_after_stop timer_inv_after_stop)
next
  case RecognitionEnd
  have "timer_inv (w\<lparr>recognitionRef := r\<rparr>)" for r using assms by (simp add: timer_inv_cases)
  with RecognitionEnd show ?thesis
    by (simp add: onend_def stopDictation_after_stop timer_inv_after_stop)
next
  case RecognitionError
  have "timer_inv (w\<lparr>console := c\<rparr>)" for c using assms by (simp add: timer_inv_cases)
  with RecognitionError show ?thesis
    by (simp add: onerror_def stopDictation_after_stop timer_inv_after_stop)
next
  case (Result ev)
  with assms show ?thesis by simp
next
  case (Tick t)
  with timer_inv_tick [OF assms, of t] show ?thesis by simp
qed

lemma timer_inv_exec:
  "timer_inv w \<Longrightarrow> \<exists>w'. exec es w = Inr w' \<and> timer_inv w'"
proof (induction es arbitrary: w)
  case Nil
  then show ?case by simp
next
  case (Cons e es)
  from timer_inv_step [OF Cons.prems, of e] obtain w1
    where "step e w = Inr w1" "timer_inv w1" by blast
  with Cons.IH [of w1] show ?case by simp
qed

lemma timer_inv_initial: "timer_inv initial"
  by (simp add: timer_inv_def initial_def)

text \<open>
  Claim C2. Whatever happens to the component from its initial world on, at most one
  silence timeout is pending in the world it reaches. One call of \<^verbatim>\<open>monitorAudio\<close> there
  on a frame above the threshold leaves no timeout pending, and a call made while a
  timeout is pending arms no other: it leaves that one, or none.
\<close>

theorem single_pending_timer:
  "\<exists>w. exec events initial = Inr w \<and> length (timeouts w) \<le> 1 \<and>
     (\<forall>d. length (timeouts (monitorAudio d w)) \<le> 1 \<and>
        (\<not> quiet d \<longrightarrow> timeouts (monitorAudio d w) = []) \<and>
        (timeouts w \<noteq> [] \<longrightarrow>
           timeouts (monitorAudio d w) = timeouts w \<or> timeouts (monitorAudio d w) = []))"
proof -
  from timer_inv_exec [OF timer_inv_initial, of events] obtain w
    where w: "exec events initial = Inr w" "timer_inv w" by blast
  have "length (timeouts (monitorAudio d w)) \<le> 1 \<and>
        (\<not> quiet d \<longrightarrow> timeouts (monitorAudio d w) = []) \<and>
        (timeouts w \<noteq> [] \<longrightarrow>
           timeouts (monitorAudio d w) = timeouts w \<or> timeouts (monitorAudio d w) = [])" for d
    using timeouts_monitorAudio [OF w(2), of d] timer_inv_length by blast
  with w timer_inv_length [OF w(2)] show ?thesis by blast
qed

theorem single_pending_timer_witness:
  "exec [Mount True, Toggle host_quiet] initial = Inr armed_example \<and>
   timeouts armed_example = [(3, 2000)] \<and> \<not> quiet loud_frame \<and>
   timeouts (monitorAudio loud_frame armed_example) = [] \<and>
   timeouts (monitorAudio quiet_frame armed_example) = [(3, 2000)]"
proof -
  have e: "exec [Mount True, Toggle host_quiet] initial = Inr armed_example"
    using start_armed_example
    by (simp add: toggleDictation_def mounted_def useEffect_def initial_def)
  have t: "timeouts armed_example = [(3, 2000)]"
    by (simp add: armed_example_def)
  have q: "timeouts (monitorAudio quiet_frame armed_example) = [(3, 2000)]"
    using quiet_frame_quiet
    by (simp add: monitorAudio_def quiet_def armed_example_def truthy_number_def
        requestAnimationFrame_def Let_def)
  from single_pending_timer [of "[Mount True, Toggle host_quiet]"] e t q loud_frame_loud
  show ?thesis by auto
qed

end
